theory Spec2Isabelle
  imports Complex_Main "HOL-Library.Word" "HOL-Library.Log_Nat"
begin

section \<open>Data model of \<open>video_activity.cpp\<close>\<close>

text \<open>
  The activity strips are vectors of \<open>activity_type_e\<close>, one entry per video frame.

  Modelled from the spec: the enumeration \<open>activity_type_e\<close> of \<open>video_activity.h\<close>,
  which is not among the sources. Its enumerators are the four states the specification
  lists, under the names the source file uses.
\<close>

datatype activity_type_e = Uninitialized | NoData | Inactive | Active

type_synonym strip = "activity_type_e list"

text \<open>
  Every way in which a member function stops abnormally: a failed \<open>k_assert\<close> (one
  constructor per assertion of the source) and an index outside a container.

  Modelled from the spec: the macro \<open>k_assert\<close> of \<open>common.h\<close>, which is not among the
  sources. A failed assertion is a fatal fault that aborts the operation at once.
\<close>

datatype fault =
    NoFrames
  | OpenFailed
  | NotThreeChannels
  | MismatchedFrames
  | UnexpectedFrameSize
  | FrameSizesDoNotMatch
  | UnknownTrackType
  | FramesSkipped
  | StripIndexOutOfRange
  | SampleIndexOutOfRange

text \<open>
  A scan either runs to the end of its loop, returns early because the stop flag was seen,
  or is aborted by a fault; an aborted scan leaves no object behind.
\<close>

datatype 'a scan = Finished 'a | Stopped 'a | Aborted fault

fun scan_result :: "'a scan \<Rightarrow> 'a option" where
  "scan_result (Finished x) = Some x"
| "scan_result (Stopped x) = Some x"
| "scan_result (Aborted f) = None"

fun map_scan :: "('a \<Rightarrow> 'b) \<Rightarrow> 'a scan \<Rightarrow> 'b scan" where
  "map_scan g (Finished x) = Finished (g x)"
| "map_scan g (Stopped x) = Stopped (g x)"
| "map_scan g (Aborted f) = Aborted f"

text \<open>
  Frame indices are \<open>uint\<close> in the source, an unsigned 32-bit type, and natural numbers
  here; the two places where a \<open>uint\<close> operation can wrap (the sum in
  \<open>numFramesToSkip\<close> and the decrement in \<open>get_start_of_active_segment\<close>) are written
  modulo \<open>2 ^ 32\<close>. The loop counters themselves stay at or below the frame count. The
  strips are \<open>QVector\<close>s, indexed by \<open>int\<close>: an index is in range when it is below the
  size and, converted to \<open>int\<close>, not negative. Reading is \<open>QVector::at\<close>, writing is
  \<open>QVector::operator[]\<close>; outside the range both are a fault.
\<close>

definition strip_at :: "strip \<Rightarrow> nat \<Rightarrow> fault + activity_type_e" where
  "strip_at s i = (if i < length s \<and> i < 2 ^ 31 then Inr (s ! i) else Inl StripIndexOutOfRange)"

definition strip_set :: "strip \<Rightarrow> nat \<Rightarrow> activity_type_e \<Rightarrow> fault + strip" where
  "strip_set s i v = (if i < length s \<and> i < 2 ^ 31 then Inr (s[i := v]) else Inl StripIndexOutOfRange)"

text \<open>
  A decoded frame is a \<open>cv::Mat\<close> read through \<open>at<cv::Vec3b>(y, x)\<close>: rows, columns, a
  channel count, and three unsigned bytes per pixel.
\<close>

type_synonym u8 = "8 word"

type_synonym Vec3b = "u8 \<times> u8 \<times> u8"

record Mat =
  rows :: nat
  cols :: nat
  channels :: nat
  at_Vec3b :: "nat \<Rightarrow> nat \<Rightarrow> Vec3b"

definition total :: "Mat \<Rightarrow> nat" where
  "total m = rows m * cols m"

text \<open>
  Modelled from the spec: the classes \<open>audio_file_c\<close> and \<open>video_info_c\<close>, whose
  headers are not among the sources. The audio track is a sample source with a total
  sample count and a signed integer amplitude per index, together with the flag that
  \<open>has_valid_audio_data\<close> returns; asking for a sample outside the track is taken to be a
  fault. The video's description gives its frame count, width and height.
\<close>

record audio_file_c =
  has_valid_audio_data :: bool
  samples :: "int list"

definition num_samples :: "audio_file_c \<Rightarrow> nat" where
  "num_samples a = length (samples a)"

definition sample_at :: "audio_file_c \<Rightarrow> nat \<Rightarrow> fault + int" where
  "sample_at a i = (if i < length (samples a) then Inr (samples a ! i) else Inl SampleIndexOutOfRange)"

record video_info_c =
  num_frames :: nat
  width :: nat
  height :: nat

text \<open>
  The object: the video's description, the two strips, and the audio track, a null pointer
  until \<open>extract_audio\<close> has loaded one.
\<close>

record video_activity_c =
  videoInfo :: video_info_c
  videoFrameIsActive :: strip
  audioFrameIsActive :: strip
  audio :: "audio_file_c option"

definition TIME_GRANULARITY_DIVISOR :: nat where
  "TIME_GRANULARITY_DIVISOR = 50"

text \<open>
  The constructor, up to the point where it starts the two worker threads: both strips get
  one \<open>Uninitialized\<close> entry per frame.
\<close>

definition construct :: "video_info_c \<Rightarrow> fault + video_activity_c" where
  "construct sourceVideo =
     (if \<not> num_frames sourceVideo > 0 then Inl NoFrames
      else Inr \<lparr> videoInfo = sourceVideo,
                 videoFrameIsActive = replicate (num_frames sourceVideo) Uninitialized,
                 audioFrameIsActive = replicate (num_frames sourceVideo) Uninitialized,
                 audio = None \<rparr>)"

section \<open>Queries\<close>

definition is_active_frame_at :: "video_activity_c \<Rightarrow> nat \<Rightarrow> nat \<Rightarrow> fault + bool" where
  "is_active_frame_at this offs videoOrAudioOrBoth =
     (if videoOrAudioOrBoth = 0 then
        (case strip_at (videoFrameIsActive this) offs of Inl f \<Rightarrow> Inl f
         | Inr v \<Rightarrow> Inr (v = Active))
      else if videoOrAudioOrBoth = 1 then
        (case strip_at (audioFrameIsActive this) offs of Inl f \<Rightarrow> Inl f
         | Inr a \<Rightarrow> Inr (a = Active))
      else if videoOrAudioOrBoth = 2 then
        (case strip_at (audioFrameIsActive this) offs of Inl f \<Rightarrow> Inl f
         | Inr a \<Rightarrow> if a = Active then Inr True
                    else (case strip_at (videoFrameIsActive this) offs of Inl f \<Rightarrow> Inl f
                          | Inr v \<Rightarrow> Inr (v = Active)))
      else Inl UnknownTrackType)"

definition has_valid_audio :: "video_activity_c \<Rightarrow> bool" where
  "has_valid_audio this = (case audio this of None \<Rightarrow> False | Some a \<Rightarrow> has_valid_audio_data a)"

text \<open>
  \<open>get_start_of_active_segment\<close>: the \<open>while\<close> loop on \<open>closest\<close>. The decrement
  wraps at \<open>closest = 0\<close>, so it is written modulo \<open>2 ^ 32\<close>.
\<close>

definition uint_dec :: "nat \<Rightarrow> nat" where
  "uint_dec n = (n + (2 ^ 32 - 1)) mod 2 ^ 32"

lemma uint_dec_0: "uint_dec 0 = 2 ^ 32 - 1"
  by (simp add: uint_dec_def)

lemma uint_dec_pos:
  assumes "0 < n" and "n < 2 ^ 32"
  shows "uint_dec n = n - 1"
proof -
  obtain m where m: "n = Suc m"
    using assms(1) by (cases n) auto
  have "n + (2 ^ 32 - 1) = m + 2 ^ 32"
    using m by simp
  then have "uint_dec n = (m + 2 ^ 32) mod 2 ^ 32"
    by (simp only: uint_dec_def)
  also have "\<dots> = m"
    using assms(2) m by simp
  finally show ?thesis
    using m by simp
qed

function segment_loop :: "strip \<Rightarrow> nat \<Rightarrow> fault + nat" where
  "segment_loop frameActivity closest =
     (case strip_at frameActivity closest of
        Inl f \<Rightarrow> Inl f
      | Inr a \<Rightarrow>
          if a = Active then
            (if uint_dec closest = 0 then Inr 0
             else segment_loop frameActivity (uint_dec closest))
          else Inr (closest + 1))"
  by pat_completeness auto
termination
proof (relation "measure (\<lambda>(s, c). if c < length s \<and> c < 2 ^ 31 then c + 1 else 0)")
  show "wf (measure (\<lambda>(s :: strip, c :: nat). if c < length s \<and> c < 2 ^ 31 then c + 1 else 0))"
    by simp
next
  fix frameActivity :: strip and closest :: nat and a :: activity_type_e
  assume r: "strip_at frameActivity closest = Inr a"
  then have inr: "closest < length frameActivity \<and> closest < 2 ^ 31"
    by (simp add: strip_at_def split: if_splits)
  show "((frameActivity, uint_dec closest), (frameActivity, closest))
        \<in> measure (\<lambda>(s, c). if c < length s \<and> c < 2 ^ 31 then c + 1 else 0)"
  proof (cases "closest = 0")
    case True
    then show ?thesis using inr by (simp add: uint_dec_0)
  next
    case False
    then have "uint_dec closest = closest - 1"
      using inr by (simp add: uint_dec_pos)
    then show ?thesis using inr False by simp
  qed
qed

definition get_start_of_active_segment :: "video_activity_c \<Rightarrow> nat \<Rightarrow> nat \<Rightarrow> fault + nat" where
  "get_start_of_active_segment this startFrameIdx videoOrAudio =
     segment_loop (if videoOrAudio = 0 then videoFrameIsActive this else audioFrameIsActive this)
                  startFrameIdx"

section \<open>The frame-difference predicate\<close>

text \<open>
  \<open>frame1 - frame2\<close> on 8-bit matrices is OpenCV's saturating subtraction: each channel is
  \<open>saturate_cast<uchar>(a - b)\<close>, which is 0 wherever \<open>a < b\<close>.
\<close>

definition saturate_sub :: "u8 \<Rightarrow> u8 \<Rightarrow> u8" where
  "saturate_sub a b = (if b \<le> a then a - b else 0)"

definition vec_sub :: "Vec3b \<Rightarrow> Vec3b \<Rightarrow> Vec3b" where
  "vec_sub p q =
     (case p of (p0, p1, p2) \<Rightarrow> case q of (q0, q1, q2) \<Rightarrow>
        (saturate_sub p0 q0, saturate_sub p1 q1, saturate_sub p2 q2))"

definition mat_sub :: "Mat \<Rightarrow> Mat \<Rightarrow> Mat" where
  "mat_sub frame1 frame2 = frame1\<lparr> at_Vec3b := (\<lambda>y x. vec_sub (at_Vec3b frame1 y x) (at_Vec3b frame2 y x)) \<rparr>"

text \<open>
  The test on one pixel of the difference: \<open>abs\<close> is applied to a byte promoted to
  \<open>int\<close>.
\<close>

definition pixel_exceeds :: "Vec3b \<Rightarrow> u8 \<Rightarrow> bool" where
  "pixel_exceeds diffPixel threshold =
     (case diffPixel of (d0, d1, d2) \<Rightarrow>
        \<bar>uint d0\<bar> > uint threshold \<or> \<bar>uint d1\<bar> > uint threshold \<or> \<bar>uint d2\<bar> > uint threshold)"

text \<open>
  The two nested loops; the second argument from the right is the running index, the
  last the number of iterations left. A hit returns at once.
\<close>

fun scan_cols :: "Mat \<Rightarrow> u8 \<Rightarrow> nat \<Rightarrow> nat \<Rightarrow> nat \<Rightarrow> bool" where
  "scan_cols difference threshold y x 0 = False"
| "scan_cols difference threshold y x (Suc k) =
     (if pixel_exceeds (at_Vec3b difference y x) threshold then True
      else scan_cols difference threshold y (x + 1) k)"

fun scan_rows :: "Mat \<Rightarrow> u8 \<Rightarrow> nat \<Rightarrow> nat \<Rightarrow> nat \<Rightarrow> bool" where
  "scan_rows difference threshold ncols y 0 = False"
| "scan_rows difference threshold ncols y (Suc k) =
     (if scan_cols difference threshold y 0 ncols then True
      else scan_rows difference threshold ncols (y + 1) k)"

definition frames_differ :: "Mat \<Rightarrow> Mat \<Rightarrow> u8 \<Rightarrow> fault + bool" where
  "frames_differ frame1 frame2 threshold =
     (if \<not> (rows frame1 = rows frame2 \<and> cols frame1 = cols frame2) then Inl FrameSizesDoNotMatch
      else let difference = mat_sub frame1 frame2
           in Inr (scan_rows difference threshold (cols frame1) 0 (rows frame1)))"

section \<open>Coalescing, shared by the two scanners\<close>

text \<open>
  \<open>numFramesToSkip\<close> as both scanners compute it; the sum is a \<open>uint\<close> sum. The run
  itself is the loop \<open>for (p = 0; p < numFramesToSkip; (p++, i++))\<close>: the first argument
  of \<open>mark_run\<close> counts the iterations left, and the loop hands back the advanced \<open>i\<close>.
\<close>

definition numFramesToSkip :: "nat \<Rightarrow> nat \<Rightarrow> nat \<Rightarrow> nat" where
  "numFramesToSkip numFrames timeGranularity i =
     (if (i + timeGranularity) mod 2 ^ 32 > numFrames then numFrames - i else timeGranularity)"

fun mark_run :: "nat \<Rightarrow> nat \<Rightarrow> strip \<Rightarrow> fault + (nat \<times> strip)" where
  "mark_run 0 i s = Inr (i, s)"
| "mark_run (Suc k) i s =
     (case strip_set s i Active of
        Inl f \<Rightarrow> Inl f
      | Inr s' \<Rightarrow> mark_run k (i + 1) s')"

section \<open>The floating-point type \<open>real\<close>\<close>

text \<open>
  Modelled from the spec: the type \<open>real\<close> of \<open>common.h\<close>, which is not among the
  sources. The specification speaks of real-valued quantities; the program computes them in
  a binary floating-point type, and which one \<open>real\<close> names is a parameter of the model:
  the number \<open>p\<close> of bits of its significand, 24 for \<open>float\<close>, 53 for \<open>double\<close>,
  64 for the \<open>long double\<close> of the x87.

  \<open>binary p x\<close> is the number with a significand of \<open>p\<close> bits nearest to \<open>x\<close>, the
  one with the even significand when two are equally near: the value of a conversion to
  such a type and of each of its operations, which round the exact result. \<open>expo x\<close> is
  the binary exponent of \<open>x\<close>, the \<open>e\<close> with \<open>2 ^ e \<le> \<bar>x\<bar> < 2 ^ (e + 1)\<close>. The
  exponent is not bounded: the sample sums, sample counts, frame indices and their
  quotients stay far inside the exponent range of each of these types.
\<close>

definition round_even :: "real \<Rightarrow> int" where
  "round_even x =
     (if x - of_int \<lfloor>x\<rfloor> < 1 / 2 then \<lfloor>x\<rfloor>
      else if 1 / 2 < x - of_int \<lfloor>x\<rfloor> then \<lfloor>x\<rfloor> + 1
      else if even \<lfloor>x\<rfloor> then \<lfloor>x\<rfloor> else \<lfloor>x\<rfloor> + 1)"

definition expo :: "real \<Rightarrow> int" where
  "expo x = (if 1 \<le> \<bar>x\<bar> then bitlen \<lfloor>\<bar>x\<bar>\<rfloor> - 1 else - bitlen (\<lceil>1 / \<bar>x\<bar>\<rceil> - 1))"

definition binary :: "nat \<Rightarrow> real \<Rightarrow> real" where
  "binary p x =
     (if x = 0 then 0
      else of_int (round_even (x * 2 powi (int p - 1 - expo x))) * 2 powi (expo x + 1 - int p))"

section \<open>The audio scanner\<close>

text \<open>
  Running FFMPEG and loading the WAV file happen outside the program. Their outcome is the
  argument \<open>extracted\<close>: \<open>None\<close> when FFMPEG failed, in which case the pointer keeps
  its value, and the loaded file otherwise.
\<close>

definition extract_audio :: "audio_file_c option \<Rightarrow> video_activity_c \<Rightarrow> video_activity_c" where
  "extract_audio extracted this =
     (case extracted of None \<Rightarrow> this | Some a \<Rightarrow> this\<lparr> audio := Some a \<rparr>)"

text \<open>
  The pass over all samples. \<open>sumAmplitude\<close> is an \<open>i64\<close>, so each addition is
  followed by the wrap into the signed 64-bit range; \<open>maxAmplitude\<close> is a \<open>uint\<close>.
\<close>

definition wrap_i64 :: "int \<Rightarrow> int" where
  "wrap_i64 x = (x + 2 ^ 63) mod 2 ^ 64 - 2 ^ 63"

fun amplitude_pass :: "int list \<Rightarrow> int \<Rightarrow> nat \<Rightarrow> int \<times> nat" where
  "amplitude_pass [] sumAmplitude maxAmplitude = (sumAmplitude, maxAmplitude)"
| "amplitude_pass (sample # rest) sumAmplitude maxAmplitude =
     amplitude_pass rest (wrap_i64 (sumAmplitude + sample))
       (if nat \<bar>sample\<bar> > maxAmplitude then nat \<bar>sample\<bar> else maxAmplitude)"

text \<open>
  The mean, in \<open>real\<close>: the \<open>i64\<close> sum and the sample count are converted, then divided.
  With no samples the quotient is not a number; it is never used then, because the first
  frame already asks for a sample outside the track.
\<close>

definition avgAmplitude :: "nat \<Rightarrow> audio_file_c \<Rightarrow> real" where
  "avgAmplitude p a =
     binary p (binary p (real_of_int (fst (amplitude_pass (samples a) 0 0))) /
               binary p (real (num_samples a)))"

definition maxAmplitude :: "audio_file_c \<Rightarrow> nat" where
  "maxAmplitude a = snd (amplitude_pass (samples a) 0 0)"

text \<open>
  The threshold. The difference is computed in \<open>real\<close>. The constant \<open>0.001\<close> is a
  \<open>double\<close> whatever \<open>real\<close> is, so the product is computed in the wider of the two
  types, and it is converted to \<open>real\<close> when it is stored.
\<close>

definition thresholdAmplitude :: "nat \<Rightarrow> audio_file_c \<Rightarrow> real" where
  "thresholdAmplitude p a =
     binary p (binary (max p 53)
       (binary p (binary p (real (maxAmplitude a)) - avgAmplitude p a) * binary 53 (1 / 1000)))"

text \<open>
  The sample index of frame \<open>i\<close>: the sample count and the frame count are converted to
  \<open>real\<close> and divided, the quotient is multiplied by the converted \<open>i\<close>, and the
  conversion of the product to \<open>uint\<close> drops the fraction.
\<close>

definition sampleOffs :: "nat \<Rightarrow> audio_file_c \<Rightarrow> nat \<Rightarrow> nat \<Rightarrow> nat" where
  "sampleOffs p a numFrames i =
     nat \<lfloor>binary p (binary p (binary p (real (num_samples a)) / binary p (real numFrames)) *
                    binary p (real i))\<rfloor>"

text \<open>
  The comparison is exact: \<open>fabs\<close> takes the sample to a \<open>double\<close>, which holds every
  sample value of a WAV file, and the two sides are compared in the wider type.
\<close>

definition loudSample :: "nat \<Rightarrow> audio_file_c \<Rightarrow> real \<Rightarrow> nat \<Rightarrow> nat \<Rightarrow> fault + bool" where
  "loudSample p a threshold numFrames i =
     (case sample_at a (sampleOffs p a numFrames i) of
        Inl f \<Rightarrow> Inl f
      | Inr sample \<Rightarrow> Inr (\<bar>real_of_int sample\<bar> > \<bar>threshold\<bar>))"

text \<open>
  One iteration of the frame loop, up to the stop check: the frame's own entry, then the
  run if the sample was loud. The result is the value of \<open>i\<close> the stop check sees, and
  the strip.
\<close>

definition audio_frame ::
  "nat \<Rightarrow> audio_file_c \<Rightarrow> real \<Rightarrow> nat \<Rightarrow> nat \<Rightarrow> nat \<Rightarrow> strip \<Rightarrow> fault + (nat \<times> strip)" where
  "audio_frame p a threshold numFrames timeGranularity i s =
     (case loudSample p a threshold numFrames i of
        Inl f \<Rightarrow> Inl f
      | Inr loud \<Rightarrow>
          (case strip_set s i (if loud then Active else Inactive) of
             Inl f \<Rightarrow> Inl f
           | Inr s1 \<Rightarrow>
               if loud then mark_run (numFramesToSkip numFrames timeGranularity i) i s1
               else Inr (i, s1)))"

lemma mark_run_Inr:
  "mark_run k i s = Inr (i', s') \<Longrightarrow>
     i' = i + k \<and> length s' = length s \<and>
     (\<forall>j < length s. s' ! j = (if i \<le> j \<and> j < i + k then Active else s ! j))"
proof (induction k arbitrary: i s)
  case 0
  then show ?case by auto
next
  case (Suc k)
  from Suc.prems obtain s1 where s1: "strip_set s i Active = Inr s1"
    and run: "mark_run k (i + 1) s1 = Inr (i', s')"
    by (auto split: sum.splits)
  from s1 have upd: "s1 = s[i := Active]" and i: "i < length s"
    by (auto simp: strip_set_def split: if_splits)
  from Suc.IH [OF run] upd show ?case
    by (auto simp: nth_list_update)
qed

lemma mark_run_index: "mark_run k i s = Inr (i', s') \<Longrightarrow> i' = i + k"
  by (drule mark_run_Inr) simp

lemma mark_run_ok:
  "i + k \<le> length s \<Longrightarrow> length s < 2 ^ 31 \<Longrightarrow> \<exists>s'. mark_run k i s = Inr (i + k, s')"
proof (induction k arbitrary: i s)
  case 0
  then show ?case by simp
next
  case (Suc k)
  then have "strip_set s i Active = Inr (s[i := Active])"
    by (simp add: strip_set_def)
  moreover have "\<exists>s'. mark_run k (i + 1) (s[i := Active]) = Inr (i + 1 + k, s')"
    using Suc.prems by (intro Suc.IH) simp_all
  ultimately show ?case by simp
qed

lemma audio_frame_index:
  "audio_frame p a threshold numFrames timeGranularity i s = Inr (i', s') \<Longrightarrow> i \<le> i'"
  by (auto simp: audio_frame_def split: sum.splits if_splits dest: mark_run_index)

text \<open>
  The frame loop. \<open>stop k\<close> is the value of \<open>workerThreadsShouldStop\<close> read by the
  check that runs with \<open>i = k\<close>; the index grows with every iteration, so each check has
  a value of its own.
\<close>

function audio_loop ::
  "nat \<Rightarrow> audio_file_c \<Rightarrow> real \<Rightarrow> nat \<Rightarrow> nat \<Rightarrow> (nat \<Rightarrow> bool) \<Rightarrow> nat \<Rightarrow> strip \<Rightarrow> strip scan" where
  "audio_loop p a threshold numFrames timeGranularity stop i s =
     (if i < numFrames then
        (case audio_frame p a threshold numFrames timeGranularity i s of
           Inl f \<Rightarrow> Aborted f
         | Inr (i', s') \<Rightarrow>
             if i' mod 200 = 0 \<and> stop i' then Stopped s'
             else audio_loop p a threshold numFrames timeGranularity stop (i' + 1) s')
      else Finished s)"
  by pat_completeness auto
termination
proof (relation "measure (\<lambda>(p, a, threshold, numFrames, timeGranularity, stop, i, s). numFrames - i)")
  show "wf (measure (\<lambda>(p :: nat, a :: audio_file_c, threshold :: real, numFrames :: nat,
                         timeGranularity :: nat, stop :: nat \<Rightarrow> bool, i :: nat, s :: strip).
                       numFrames - i))"
    by simp
next
  fix p a threshold numFrames timeGranularity and stop :: "nat \<Rightarrow> bool" and i s x2 i' s'
  assume "i < numFrames"
    and "audio_frame p a threshold numFrames timeGranularity i s = Inr x2"
    and "(i', s') = x2"
  then have "i \<le> i'"
    using audio_frame_index [of p a threshold numFrames timeGranularity i s i' s'] by simp
  with \<open>i < numFrames\<close>
  show "((p, a, threshold, numFrames, timeGranularity, stop, i' + 1, s'),
         (p, a, threshold, numFrames, timeGranularity, stop, i, s))
        \<in> measure (\<lambda>(p, a, threshold, numFrames, timeGranularity, stop, i, s). numFrames - i)"
    by simp
qed

text \<open>
  The member function. After the test of \<open>has_valid_audio\<close> the pointer is not null, which
  is what makes \<open>the\<close> safe in the last branch.
\<close>

definition mark_audio_frame_activity ::
  "nat \<Rightarrow> audio_file_c option \<Rightarrow> (nat \<Rightarrow> bool) \<Rightarrow> video_activity_c \<Rightarrow> video_activity_c scan" where
  "mark_audio_frame_activity p extracted stop this0 =
     (let timeGranularity = num_frames (videoInfo this0) div TIME_GRANULARITY_DIVISOR;
          this = extract_audio extracted this0
      in if \<not> has_valid_audio this then
           Finished (this\<lparr> audioFrameIsActive :=
                              replicate (length (audioFrameIsActive this)) NoData \<rparr>)
         else if \<not> num_frames (videoInfo this) > 0 then Aborted NoFrames
         else
           map_scan (\<lambda>s. this\<lparr> audioFrameIsActive := s \<rparr>)
             (audio_loop p (the (audio this)) (thresholdAmplitude p (the (audio this)))
                (num_frames (videoInfo this)) timeGranularity stop 0 (audioFrameIsActive this)))"

section \<open>The video scanner\<close>

text \<open>
  The \<open>cv::VideoCapture\<close> opened on the video file: whether opening succeeded, the
  decoded frames of the file, and the position of the next frame to read.
  \<open>video >> thisFrame\<close> hands out the frame at the position and advances; past the last
  frame the read fails and releases the matrix, which then has no rows and no columns.
\<close>

record VideoCapture =
  isOpened :: bool
  frames :: "Mat list"
  pos :: nat

definition empty_Mat :: Mat where
  "empty_Mat = \<lparr> rows = 0, cols = 0, channels = 1, at_Vec3b = (\<lambda>y x. (0, 0, 0)) \<rparr>"

definition read_frame :: "VideoCapture \<Rightarrow> Mat \<Rightarrow> Mat \<times> VideoCapture" where
  "read_frame video thisFrame =
     (if pos video < length (frames video)
      then (frames video ! pos video, video\<lparr> pos := pos video + 1 \<rparr>)
      else (thisFrame\<lparr> rows := 0, cols := 0 \<rparr>, video))"

text \<open>
  The first half of an iteration: keep the previous frame, read the next one, check the
  four assertions and compare. The result is the verdict of \<open>frames_differ\<close>, the capture
  and the frame just read.
\<close>

definition video_compare ::
  "video_info_c \<Rightarrow> VideoCapture \<Rightarrow> Mat \<Rightarrow> fault + (bool \<times> VideoCapture \<times> Mat)" where
  "video_compare info video thisFrame0 =
     (let prevFrame = thisFrame0;
          (thisFrame, video1) = read_frame video thisFrame0
      in if \<not> channels thisFrame = 3 then Inl NotThreeChannels
         else if \<not> channels thisFrame = channels prevFrame then Inl MismatchedFrames
         else if \<not> total thisFrame = width info * height info then Inl UnexpectedFrameSize
         else if \<not> total thisFrame = total prevFrame then Inl MismatchedFrames
         else (case frames_differ thisFrame prevFrame 30 of
                 Inl f \<Rightarrow> Inl f
               | Inr differ \<Rightarrow> Inr (differ, video1, thisFrame)))"

text \<open>
  One iteration of the frame loop, up to the stop check. The state next to \<open>i\<close> is the
  strip, the capture and \<open>thisFrame\<close>. After a run the entry at the advanced \<open>i\<close> is
  written \<open>Inactive\<close> and the capture is positioned there.
\<close>

type_synonym video_state = "strip \<times> VideoCapture \<times> Mat"

definition video_frame ::
  "video_info_c \<Rightarrow> nat \<Rightarrow> nat \<Rightarrow> video_state \<Rightarrow> fault + (nat \<times> video_state)" where
  "video_frame info timeGranularity i st =
     (case st of (s, video, thisFrame0) \<Rightarrow>
        (case video_compare info video thisFrame0 of
           Inl f \<Rightarrow> Inl f
         | Inr (differ, video1, thisFrame) \<Rightarrow>
             (case strip_set s i (if differ then Active else Inactive) of
                Inl f \<Rightarrow> Inl f
              | Inr s1 \<Rightarrow>
                  if s1 ! i = Active then
                    (case mark_run (numFramesToSkip (num_frames info) timeGranularity i) i s1 of
                       Inl f \<Rightarrow> Inl f
                     | Inr (i2, s2) \<Rightarrow>
                         (case strip_set s2 i2 Inactive of
                            Inl f \<Rightarrow> Inl f
                          | Inr s3 \<Rightarrow>
                              (case read_frame (video1\<lparr> pos := i2 \<rparr>) thisFrame of
                                 (thisFrame', video2) \<Rightarrow> Inr (i2, s3, video2, thisFrame'))))
                  else Inr (i, s1, video1, thisFrame))))"

lemma video_frame_index:
  "video_frame info timeGranularity i st = Inr (i', st') \<Longrightarrow> i \<le> i'"
  by (auto simp: video_frame_def split: sum.splits if_splits prod.splits dest: mark_run_index)

function video_loop ::
  "video_info_c \<Rightarrow> nat \<Rightarrow> (nat \<Rightarrow> bool) \<Rightarrow> nat \<Rightarrow> video_state \<Rightarrow> strip scan" where
  "video_loop info timeGranularity stop i st =
     (if i < num_frames info then
        (case video_frame info timeGranularity i st of
           Inl f \<Rightarrow> Aborted f
         | Inr (i', st') \<Rightarrow>
             if i' mod 200 = 0 \<and> stop i' then Stopped (fst st')
             else video_loop info timeGranularity stop (i' + 1) st')
      else Finished (fst st))"
  by pat_completeness auto
termination
proof (relation "measure (\<lambda>(info, timeGranularity, stop, i, st). num_frames info - i)")
  show "wf (measure (\<lambda>(info :: video_info_c, timeGranularity :: nat, stop :: nat \<Rightarrow> bool,
                         i :: nat, st :: video_state). num_frames info - i))"
    by simp
next
  fix info timeGranularity and stop :: "nat \<Rightarrow> bool" and i st x2 i' st'
  assume "i < num_frames info"
    and "video_frame info timeGranularity i st = Inr x2"
    and "(i', st') = x2"
  then have "i \<le> i'"
    using video_frame_index [of info timeGranularity i st i' st'] by simp
  with \<open>i < num_frames info\<close>
  show "((info, timeGranularity, stop, i' + 1, st'), (info, timeGranularity, stop, i, st))
        \<in> measure (\<lambda>(info, timeGranularity, stop, i, st). num_frames info - i)"
    by simp
qed

text \<open>
  The three statements before the loop: position the capture at frame 0, read it, and
  write the first entry of the strip.
\<close>

definition video_first :: "VideoCapture \<Rightarrow> strip \<Rightarrow> fault + video_state" where
  "video_first video s =
     (case read_frame (video\<lparr> pos := 0 \<rparr>) empty_Mat of
        (thisFrame, video1) \<Rightarrow>
          (case strip_set s 0 Inactive of
             Inl f \<Rightarrow> Inl f
           | Inr s0 \<Rightarrow> Inr (s0, video1, thisFrame)))"

text \<open>
  The member function: the capture must be open, the loop starts at 1, and a loop that ran
  to its end is followed by the last assertion, on the size of the strip.
\<close>

definition mark_video_frame_activity ::
  "VideoCapture \<Rightarrow> (nat \<Rightarrow> bool) \<Rightarrow> video_activity_c \<Rightarrow> video_activity_c scan" where
  "mark_video_frame_activity video stop this =
     (let timeGranularity = num_frames (videoInfo this) div TIME_GRANULARITY_DIVISOR
      in if \<not> isOpened video then Aborted OpenFailed
         else
           (case video_first video (videoFrameIsActive this) of
              Inl f \<Rightarrow> Aborted f
            | Inr st1 \<Rightarrow>
                (case video_loop (videoInfo this) timeGranularity stop 1 st1 of
                   Finished s \<Rightarrow>
                     if \<not> length s = num_frames (videoInfo this) then Aborted FramesSkipped
                     else Finished (this\<lparr> videoFrameIsActive := s \<rparr>)
                 | Stopped s \<Rightarrow> Stopped (this\<lparr> videoFrameIsActive := s \<rparr>)
                 | Aborted f \<Rightarrow> Aborted f)))"

section \<open>The iterations of the frame loops\<close>

text \<open>
  A frame is evaluated directly when the loop starts an iteration at its index.
  \<open>audio_iter \<dots> s0 i s\<close> says that the audio loop, started on the strip \<open>s0\<close>,
  reaches the head of an iteration with the index \<open>i\<close> and the strip \<open>s\<close>;
  \<open>video_iter\<close> says the same of the video loop, which starts at index 1.
\<close>

inductive audio_iter ::
  "nat \<Rightarrow> audio_file_c \<Rightarrow> real \<Rightarrow> nat \<Rightarrow> nat \<Rightarrow> (nat \<Rightarrow> bool) \<Rightarrow> strip \<Rightarrow> nat \<Rightarrow> strip \<Rightarrow> bool"
  for p a threshold numFrames timeGranularity stop s0 where
  audio_iter_start: "audio_iter p a threshold numFrames timeGranularity stop s0 0 s0"
| audio_iter_next:
    "audio_iter p a threshold numFrames timeGranularity stop s0 i s \<Longrightarrow>
     i < numFrames \<Longrightarrow>
     audio_frame p a threshold numFrames timeGranularity i s = Inr (i', s') \<Longrightarrow>
     \<not> (i' mod 200 = 0 \<and> stop i') \<Longrightarrow>
     audio_iter p a threshold numFrames timeGranularity stop s0 (i' + 1) s'"

inductive video_iter ::
  "video_info_c \<Rightarrow> nat \<Rightarrow> (nat \<Rightarrow> bool) \<Rightarrow> video_state \<Rightarrow> nat \<Rightarrow> video_state \<Rightarrow> bool"
  for info timeGranularity stop st1 where
  video_iter_start: "video_iter info timeGranularity stop st1 1 st1"
| video_iter_next:
    "video_iter info timeGranularity stop st1 i st \<Longrightarrow>
     i < num_frames info \<Longrightarrow>
     video_frame info timeGranularity i st = Inr (i', st') \<Longrightarrow>
     \<not> (i' mod 200 = 0 \<and> stop i') \<Longrightarrow>
     video_iter info timeGranularity stop st1 (i' + 1) st'"

text \<open>
  The same for the member functions: the scan of the object evaluates frame \<open>i\<close>
  directly, and the verdict there is \<open>loud\<close> (audio) or \<open>differ\<close> (video).
\<close>

definition audio_evaluates ::
  "nat \<Rightarrow> audio_file_c option \<Rightarrow> (nat \<Rightarrow> bool) \<Rightarrow> video_activity_c \<Rightarrow> nat \<Rightarrow> bool \<Rightarrow> bool" where
  "audio_evaluates p extracted stop this0 i loud =
     (let this = extract_audio extracted this0;
          numFrames = num_frames (videoInfo this);
          a = the (audio this)
      in has_valid_audio this \<and> i < numFrames \<and>
         (\<exists>s. audio_iter p a (thresholdAmplitude p a) numFrames
                (numFrames div TIME_GRANULARITY_DIVISOR) stop (audioFrameIsActive this) i s) \<and>
         loudSample p a (thresholdAmplitude p a) numFrames i = Inr loud)"

definition video_evaluates ::
  "VideoCapture \<Rightarrow> (nat \<Rightarrow> bool) \<Rightarrow> video_activity_c \<Rightarrow> nat \<Rightarrow> bool \<Rightarrow> bool" where
  "video_evaluates video stop this i differ =
     (isOpened video \<and> i < num_frames (videoInfo this) \<and>
      (\<exists>st1 s cap thisFrame cap' thisFrame'.
         video_first video (videoFrameIsActive this) = Inr st1 \<and>
         video_iter (videoInfo this) (num_frames (videoInfo this) div TIME_GRANULARITY_DIVISOR)
           stop st1 i (s, cap, thisFrame) \<and>
         video_compare (videoInfo this) cap thisFrame = Inr (differ, cap', thisFrame')))"



text \<open>
  The head of the iteration that the loop reaches after \<open>n\<close> more iterations, none of
  which ends the scan; it serves to find the iterations of a scan on a given input.
\<close>

fun audio_steps ::
  "nat \<Rightarrow> audio_file_c \<Rightarrow> real \<Rightarrow> nat \<Rightarrow> nat \<Rightarrow> (nat \<Rightarrow> bool) \<Rightarrow> nat \<Rightarrow> nat \<Rightarrow> strip \<Rightarrow>
   (nat \<times> strip) option" where
  "audio_steps p a threshold numFrames timeGranularity stop 0 i s = Some (i, s)"
| "audio_steps p a threshold numFrames timeGranularity stop (Suc n) i s =
     (if i < numFrames then
        (case audio_frame p a threshold numFrames timeGranularity i s of
           Inl f \<Rightarrow> None
         | Inr (i', s') \<Rightarrow>
             if i' mod 200 = 0 \<and> stop i' then None
             else audio_steps p a threshold numFrames timeGranularity stop n (i' + 1) s')
      else None)"

fun video_steps ::
  "video_info_c \<Rightarrow> nat \<Rightarrow> (nat \<Rightarrow> bool) \<Rightarrow> nat \<Rightarrow> nat \<Rightarrow> video_state \<Rightarrow>
   (nat \<times> video_state) option" where
  "video_steps info timeGranularity stop 0 i st = Some (i, st)"
| "video_steps info timeGranularity stop (Suc n) i st =
     (if i < num_frames info then
        (case video_frame info timeGranularity i st of
           Inl f \<Rightarrow> None
         | Inr (i', st') \<Rightarrow>
             if i' mod 200 = 0 \<and> stop i' then None
             else video_steps info timeGranularity stop n (i' + 1) st')
      else None)"

section \<open>Properties of the rounding\<close>

text \<open>
  An integer is its own rounding, \<open>expo\<close> is the binary exponent, a number with a
  significand of at most \<open>p\<close> bits is its own rounding, the rounding of a number is
  not negative and not above a representable bound when the number is not, and it is off
  by at most half a unit of the last of the \<open>p\<close> bits.
\<close>

lemma round_even_of_int: "round_even (of_int k) = k"
  by (simp add: round_even_def)

lemma round_even_le:
  assumes "x \<le> of_int k"
  shows "round_even x \<le> k"
proof -
  have fl: "\<lfloor>x\<rfloor> \<le> k"
    using assms by (simp add: floor_le_iff)
  show ?thesis
  proof (cases "x = of_int \<lfloor>x\<rfloor>")
    case True
    then have "x - of_int \<lfloor>x\<rfloor> = 0" by simp
    then show ?thesis using fl by (simp add: round_even_def)
  next
    case False
    then have "of_int \<lfloor>x\<rfloor> < x"
      using of_int_floor_le [of x] by linarith
    with assms have "of_int \<lfloor>x\<rfloor> < (of_int k :: real)" by linarith
    then have "\<lfloor>x\<rfloor> < k" by simp
    then show ?thesis by (simp add: round_even_def)
  qed
qed

lemma round_even_ge:
  assumes "of_int k \<le> x"
  shows "k \<le> round_even x"
proof -
  have "k \<le> \<lfloor>x\<rfloor>"
    using assms by (simp add: le_floor_iff)
  then show ?thesis by (simp add: round_even_def)
qed

lemma expo_bounds:
  assumes "x \<noteq> 0"
  shows "2 powi expo x \<le> \<bar>x\<bar>" and "\<bar>x\<bar> < 2 powi (expo x + 1)"
proof -
  have "2 powi expo x \<le> \<bar>x\<bar> \<and> \<bar>x\<bar> < 2 powi (expo x + 1)"
  proof (cases "1 \<le> \<bar>x\<bar>")
    case True
    define m where "m = \<lfloor>\<bar>x\<bar>\<rfloor>"
    have m: "0 < m" using True by (simp add: m_def)
    from bitlen_bounds [OF m] have lo: "2 ^ nat (bitlen m - 1) \<le> m" and hi: "m < 2 ^ nat (bitlen m)"
      by simp_all
    have b1: "1 \<le> bitlen m"
      using m by (simp add: bitlen_alt_def)
    have e: "expo x = bitlen m - 1"
      using True by (simp add: expo_def m_def)
    have "(2::real) powi (bitlen m - 1) = 2 ^ nat (bitlen m - 1)"
      using b1 by (simp add: power_int_nonneg_exp)
    also have "\<dots> = of_int (2 ^ nat (bitlen m - 1))" by simp
    also have "\<dots> \<le> of_int m" using lo by (simp only: of_int_le_iff)
    also have "\<dots> \<le> \<bar>x\<bar>" by (simp add: m_def)
    finally have A: "2 powi expo x \<le> \<bar>x\<bar>" by (simp add: e)
    have "m + 1 \<le> 2 ^ nat (bitlen m)" using hi by simp
    then have "(of_int (m + 1) :: real) \<le> of_int (2 ^ nat (bitlen m))"
      by (simp only: of_int_le_iff)
    moreover have "\<bar>x\<bar> < of_int (m + 1)"
      unfolding m_def by linarith
    ultimately have "\<bar>x\<bar> < of_int (2 ^ nat (bitlen m))" by (rule less_le_trans [rotated])
    then have "\<bar>x\<bar> < 2 ^ nat (bitlen m)" by simp
    also have "(2::real) ^ nat (bitlen m) = 2 powi (bitlen m)"
      using b1 by (simp add: power_int_nonneg_exp)
    finally have "\<bar>x\<bar> < 2 powi (expo x + 1)" by (simp add: e)
    with A show ?thesis ..
  next
    case False
    then have small: "\<bar>x\<bar> < 1" by simp
    have pos: "0 < \<bar>x\<bar>" using assms by simp
    define y where "y = 1 / \<bar>x\<bar>"
    have y1: "1 < y" using small pos by (simp add: y_def)
    define c where "c = \<lceil>y\<rceil>"
    have c: "0 < c - 1"
    proof -
      have "1 < c" using y1 by (simp add: c_def less_ceiling_iff)
      then show ?thesis by simp
    qed
    define L where "L = bitlen (c - 1)"
    from bitlen_bounds [OF c] have lo: "2 ^ nat (L - 1) \<le> c - 1" and hi: "c - 1 < 2 ^ nat L"
      by (simp_all add: L_def)
    have L1: "1 \<le> L" using c by (simp add: L_def bitlen_alt_def)
    have e: "expo x = - L"
      using False by (simp add: expo_def L_def c_def y_def)
    have "c \<le> 2 ^ nat L" using hi by simp
    then have "(of_int c :: real) \<le> of_int (2 ^ nat L)" by (simp only: of_int_le_iff)
    moreover have "y \<le> of_int c" by (simp add: c_def)
    ultimately have "y \<le> of_int (2 ^ nat L)" by (rule order_trans [rotated])
    then have "y \<le> 2 ^ nat L" by simp
    then have "1 / \<bar>x\<bar> \<le> 2 ^ nat L" by (simp add: y_def)
    then have "1 \<le> 2 ^ nat L * \<bar>x\<bar>"
      using pos by (simp add: field_simps)
    then have "1 / 2 ^ nat L \<le> \<bar>x\<bar>"
      by (simp add: field_simps)
    moreover have "(2::real) powi (- L) = 1 / 2 ^ nat L"
      using L1 by (simp add: power_int_minus_divide power_int_nonneg_exp)
    ultimately have A: "2 powi expo x \<le> \<bar>x\<bar>" by (simp add: e)
    have "(of_int (2 ^ nat (L - 1)) :: real) \<le> of_int (c - 1)"
      using lo by (simp only: of_int_le_iff)
    moreover have "of_int (c - 1) < y"
      using ceiling_correct [of y] by (simp add: c_def)
    ultimately have "of_int (2 ^ nat (L - 1)) < y" by (rule le_less_trans)
    then have "2 ^ nat (L - 1) < y" by simp
    then have "2 ^ nat (L - 1) < 1 / \<bar>x\<bar>" by (simp add: y_def)
    then have "\<bar>x\<bar> * 2 ^ nat (L - 1) < 1"
      using pos by (simp add: field_simps)
    then have "\<bar>x\<bar> < 1 / 2 ^ nat (L - 1)"
      by (simp add: field_simps)
    moreover have "(2::real) powi (- L + 1) = 1 / 2 ^ nat (L - 1)"
    proof -
      have "- L + 1 = - (L - 1)" by simp
      then have "(2::real) powi (- L + 1) = 1 / 2 powi (L - 1)"
        by (simp only: power_int_minus_divide)
      then show ?thesis using L1 by (simp add: power_int_nonneg_exp)
    qed
    ultimately have "\<bar>x\<bar> < 2 powi (expo x + 1)" by (simp add: e)
    with A show ?thesis ..
  qed
  then show "2 powi expo x \<le> \<bar>x\<bar>" and "\<bar>x\<bar> < 2 powi (expo x + 1)" by simp_all
qed

lemma powi_add2: "(2::real) powi (a + b) = 2 powi a * 2 powi b"
  by (simp add: power_int_add)

lemma powi_split: "(2::real) powi a = 2 powi b * 2 powi (a - b)"
  using powi_add2 [of b "a - b"] by simp

lemma powi_less_imp: "(2::real) powi a < 2 powi b \<Longrightarrow> a < b"
proof (rule ccontr)
  assume lt: "(2::real) powi a < 2 powi b" and "\<not> a < b"
  then have "b \<le> a" by simp
  then have "(2::real) powi b \<le> 2 powi a"
    by (intro power_int_increasing) simp_all
  with lt show False by simp
qed

lemma binary_exact:
  assumes "\<bar>m\<bar> < 2 ^ p"
  shows "binary p (of_int m * 2 powi e) = of_int m * 2 powi e"
proof (cases "m = 0")
  case True
  then show ?thesis by (simp add: binary_def)
next
  case False
  define x :: real where "x = of_int m * 2 powi e"
  have x0: "x \<noteq> 0" using False by (simp add: x_def)
  define E where "E = expo x"
  have "2 powi E \<le> \<bar>x\<bar>" using expo_bounds(1) [OF x0] by (simp add: E_def)
  also have "\<bar>x\<bar> = of_int \<bar>m\<bar> * 2 powi e"
    by (simp add: x_def abs_mult power_int_abs)
  also have "\<dots> < of_int (2 ^ p) * 2 powi e"
    using assms by (intro mult_strict_right_mono) (simp_all only: of_int_less_iff zero_less_power_int zero_less_numeral)
  also have "\<dots> = 2 powi (int p + e)"
    by (simp add: power_int_add)
  finally have "E < int p + e" by (rule powi_less_imp)
  then have k: "0 \<le> int p - 1 - E + e" by simp
  define k where "k = nat (int p - 1 - E + e)"
  have "x * 2 powi (int p - 1 - E) = of_int m * 2 powi (e + (int p - 1 - E))"
    by (simp add: x_def power_int_add)
  also have "e + (int p - 1 - E) = int k"
    using k by (simp add: k_def)
  also have "of_int m * (2::real) powi int k = of_int (m * 2 ^ k)"
    by simp
  finally have "round_even (x * 2 powi (int p - 1 - E)) = m * 2 ^ k"
    by (simp only: round_even_of_int)
  then have "binary p x = of_int (m * 2 ^ k) * 2 powi (E + 1 - int p)"
    using x0 by (simp add: binary_def E_def)
  also have "\<dots> = of_int m * (2 powi int k * 2 powi (E + 1 - int p))"
    by simp
  also have "2 powi int k * (2::real) powi (E + 1 - int p) = 2 powi (int k + (E + 1 - int p))"
    by (simp add: power_int_add)
  also have "int k + (E + 1 - int p) = e"
    using k by (simp add: k_def)
  finally show ?thesis by (simp add: x_def)
qed

lemma binary_of_int:
  "\<bar>m\<bar> < 2 ^ p \<Longrightarrow> binary p (of_int m) = of_int m"
  using binary_exact [of m p 0] by simp

lemma binary_of_nat:
  "n < 2 ^ p \<Longrightarrow> binary p (of_nat n) = of_nat n"
proof -
  assume "n < 2 ^ p"
  then have "int n < int (2 ^ p)" by (simp only: of_nat_less_iff)
  then have "\<bar>int n\<bar> < 2 ^ p" by simp
  from binary_of_int [OF this] show ?thesis by simp
qed

lemma binary_nonneg:
  assumes "0 \<le> x"
  shows "0 \<le> binary p x"
proof (cases "x = 0")
  case True
  then show ?thesis by (simp add: binary_def)
next
  case False
  have "(of_int 0 :: real) \<le> x * 2 powi (int p - 1 - expo x)"
    using assms by simp
  then have "0 \<le> round_even (x * 2 powi (int p - 1 - expo x))"
    by (rule round_even_ge)
  then show ?thesis using False by (simp add: binary_def)
qed

lemma binary_le:
  assumes "0 \<le> x" and "x \<le> of_int m * 2 powi e" and "\<bar>m\<bar> < 2 ^ p"
  shows "binary p x \<le> of_int m * 2 powi e"
proof (cases "x = 0")
  case True
  with assms(1,2) show ?thesis by (simp add: binary_def)
next
  case False
  define r :: real where "r = of_int m * 2 powi e"
  define E where "E = expo x"
  define g :: real where "g = 2 powi (E + 1 - int p)"
  have g: "0 < g" by (simp add: g_def)
  have xpos: "0 < x" using assms(1) False by simp
  have lo: "2 powi E \<le> x" and hi: "x < 2 powi (E + 1)"
    using expo_bounds [OF False] xpos by (simp_all add: E_def)
  have scale: "x * 2 powi (int p - 1 - E) = x / g"
  proof -
    have "int p - 1 - E = - (E + 1 - int p)" by simp
    then show ?thesis by (simp only: g_def power_int_minus_divide) simp
  qed
  have b: "binary p x = of_int (round_even (x / g)) * g"
    using False by (simp add: binary_def E_def [symmetric] scale g_def)
  show ?thesis
  proof (cases "2 powi (E + 1) \<le> r")
    case True
    have "x / g < 2 powi (E + 1) / g"
      using hi g by (simp add: divide_strict_right_mono)
    also have "2 powi (E + 1) / g = 2 powi (int p)"
    proof -
      have "(2::real) powi (E + 1) = 2 powi (int p) * 2 powi (E + 1 - int p)"
        by (rule powi_split)
      then show ?thesis using g by (simp add: g_def)
    qed
    also have "\<dots> = of_int (2 ^ p)" by simp
    finally have "x / g \<le> of_int (2 ^ p)" by simp
    then have "round_even (x / g) \<le> 2 ^ p" by (rule round_even_le)
    then have "(of_int (round_even (x / g)) :: real) \<le> of_int (2 ^ p)"
      by (simp only: of_int_le_iff)
    then have "of_int (round_even (x / g)) * g \<le> of_int (2 ^ p) * g"
      using g by (intro mult_right_mono) simp_all
    also have "of_int (2 ^ p) * g = 2 powi (E + 1)"
    proof -
      have "(2::real) powi (int p) * 2 powi (E + 1 - int p) = 2 powi (E + 1)"
        by (rule powi_split [symmetric])
      then show ?thesis by (simp add: g_def)
    qed
    finally show ?thesis using True b by (simp add: r_def)
  next
    case False
    then have rhi: "r < 2 powi (E + 1)" by simp
    have rlo: "2 powi E \<le> r" using lo assms(2) by (simp add: r_def)
    have mpos: "0 < m"
    proof (rule ccontr)
      assume "\<not> 0 < m"
      then have "(of_int m :: real) \<le> 0" by simp
      then have "r \<le> 0" by (simp add: r_def mult_le_0_iff)
      with rlo show False
        using zero_less_power_int [of "2::real" E] by linarith
    qed
    have "2 powi E \<le> r" by fact
    also have "r < of_int (2 ^ p) * 2 powi e"
    proof -
      have "m < 2 ^ p" using assms(3) by simp
      then have "(of_int m :: real) < of_int (2 ^ p)" by (simp only: of_int_less_iff)
      then show ?thesis unfolding r_def
        by (rule mult_strict_right_mono) simp
    qed
    also have "\<dots> = 2 powi (int p + e)"
      by (simp add: power_int_add)
    finally have "E < int p + e" by (rule powi_less_imp)
    then have k: "0 \<le> e - (E + 1 - int p)" by simp
    define k where "k = nat (e - (E + 1 - int p))"
    have "(2::real) powi e = 2 powi (int k) * 2 powi (E + 1 - int p)"
    proof -
      have "e = int k + (E + 1 - int p)" using k by (simp add: k_def)
      then show ?thesis by (simp only: powi_add2)
    qed
    then have rg: "r = of_int (m * 2 ^ k) * g"
      by (simp add: r_def g_def)
    have "x / g \<le> r / g"
      using assms(2) g by (simp add: r_def divide_right_mono)
    also have "r / g = of_int (m * 2 ^ k)"
      using g rg by simp
    finally have "round_even (x / g) \<le> m * 2 ^ k" by (rule round_even_le)
    then have "(of_int (round_even (x / g)) :: real) \<le> of_int (m * 2 ^ k)"
      by (simp only: of_int_le_iff)
    then have "of_int (round_even (x / g)) * g \<le> of_int (m * 2 ^ k) * g"
      using g by (intro mult_right_mono) simp_all
    then have "binary p x \<le> r" by (simp only: b rg)
    then show ?thesis by (simp only: r_def)
  qed
qed

lemma round_even_error: "\<bar>of_int (round_even x) - x\<bar> \<le> 1 / 2"
proof -
  define f where "f = x - of_int \<lfloor>x\<rfloor>"
  have f: "0 \<le> f" "f < 1"
    unfolding f_def by linarith+
  have x: "x = of_int \<lfloor>x\<rfloor> + f"
    by (simp add: f_def)
  consider "f < 1 / 2" | "1 / 2 < f" | "f = 1 / 2"
    by linarith
  then show ?thesis
  proof cases
    case 1
    then have "round_even x = \<lfloor>x\<rfloor>"
      by (simp add: round_even_def f_def)
    then have "of_int (round_even x) - x = - f"
      by (simp add: f_def)
    with 1 f show ?thesis by simp
  next
    case 2
    then have "round_even x = \<lfloor>x\<rfloor> + 1"
      by (simp add: round_even_def f_def)
    then have "of_int (round_even x) - x = 1 - f"
      by (simp add: f_def)
    with 2 f show ?thesis by simp
  next
    case 3
    then have "round_even x = \<lfloor>x\<rfloor> \<or> round_even x = \<lfloor>x\<rfloor> + 1"
      by (simp add: round_even_def f_def)
    then have "of_int (round_even x) - x = - f \<or> of_int (round_even x) - x = 1 - f"
      by (auto simp: f_def)
    with 3 show ?thesis by auto
  qed
qed

lemma binary_error:
  assumes "x \<noteq> 0"
  shows "\<bar>binary p x - x\<bar> \<le> 2 powi (expo x - int p)"
proof -
  define g :: real where "g = 2 powi (expo x + 1 - int p)"
  define y where "y = x * 2 powi (int p - 1 - expo x)"
  have g: "0 < g" by (simp add: g_def)
  have "2 powi (int p - 1 - expo x) * g = (2::real) powi ((int p - 1 - expo x) + (expo x + 1 - int p))"
    unfolding g_def by (rule powi_add2 [symmetric])
  then have "2 powi (int p - 1 - expo x) * g = 1"
    by simp
  then have yg: "y * g = x"
    by (simp add: y_def)
  have "binary p x - x = (of_int (round_even y) - y) * g"
    using assms yg by (simp add: binary_def y_def g_def algebra_simps)
  then have "\<bar>binary p x - x\<bar> = \<bar>of_int (round_even y) - y\<bar> * g"
    using g by (simp add: abs_mult)
  also have "\<dots> \<le> 1 / 2 * g"
    using round_even_error [of y] g by (intro mult_right_mono) simp_all
  also have "1 / 2 * g = 2 powi (- 1) * 2 powi (expo x + 1 - int p)"
    by (simp add: g_def)
  also have "\<dots> = 2 powi (- 1 + (expo x + 1 - int p))"
    by (rule powi_add2 [symmetric])
  finally show ?thesis
    by simp
qed

lemma binary_zero: "binary p 0 = 0"
  by (simp add: binary_def)

lemma binary_numeral: "numeral k < (2 :: nat) ^ p \<Longrightarrow> binary p (numeral k) = numeral k"
  using binary_of_nat [of "numeral k" p] by simp

lemmas binary_eval = binary_def expo_def round_even_def compute_bitlen

text \<open>
  The rounding gives the known encodings of one tenth, \<open>0x3FB999999999999A\<close> as a
  \<open>double\<close> and \<open>0x3DCCCCCD\<close> as a \<open>float\<close>.
\<close>

lemma binary_one_tenth:
  "binary 53 (1 / 10) = 3602879701896397 / 36028797018963968"
  "binary 24 (1 / 10) = 13421773 / 134217728"
  by (simp_all add: binary_eval)

text \<open>
  A rounded quotient times its divisor can stay below the dividend: \<open>(58 / 110) * 55\<close>
  is below 29 in each of the three types, so that its integer part is 28.
\<close>

lemma rounded_product_below:
  "nat \<lfloor>binary 24 (binary 24 (binary 24 58 / binary 24 110) * binary 24 55)\<rfloor> = 28"
  "nat \<lfloor>binary 53 (binary 53 (binary 53 58 / binary 53 110) * binary 53 55)\<rfloor> = 28"
  "nat \<lfloor>binary 64 (binary 64 (binary 64 58 / binary 64 110) * binary 64 55)\<rfloor> = 28"
  "(55 * 58) div 110 = (29 :: nat)"
  by (simp_all add: binary_eval)

section \<open>Properties of the coalescing run and of the audio loop\<close>

declare audio_loop.simps [simp del]

declare video_loop.simps [simp del]

lemma mark_run_bound:
  "mark_run k i s = Inr (i', s') \<Longrightarrow> k = 0 \<or> i + k \<le> length s"
proof (induction k arbitrary: i s)
  case 0
  then show ?case by simp
next
  case (Suc k)
  from Suc.prems obtain s1 where s1: "strip_set s i Active = Inr s1"
    and run: "mark_run k (i + 1) s1 = Inr (i', s')"
    by (auto split: sum.splits)
  from s1 have "length s1 = length s" and "i < length s"
    by (auto simp: strip_set_def split: if_splits)
  with Suc.IH [OF run] show ?case by auto
qed

lemma audio_frame_Inr:
  assumes "audio_frame p a thr N G i s = Inr (i', s')"
  shows "\<exists>loud. loudSample p a thr N i = Inr loud \<and> i < length s \<and> i' \<le> length s \<and>
           i' = (if loud then i + numFramesToSkip N G i else i) \<and> length s' = length s \<and>
           (\<forall>j < length s. s' ! j =
              (if j = i then (if loud then Active else Inactive)
               else if loud \<and> i \<le> j \<and> j < i' then Active else s ! j))"
proof -
  from assms obtain loud s1 where loud: "loudSample p a thr N i = Inr loud"
    and s1: "strip_set s i (if loud then Active else Inactive) = Inr s1"
    and rest: "(if loud then mark_run (numFramesToSkip N G i) i s1 else Inr (i, s1)) = Inr (i', s')"
    unfolding audio_frame_def by (simp split: sum.splits)
  from s1 have upd: "s1 = s[i := (if loud then Active else Inactive)]" and i: "i < length s"
    by (simp_all add: strip_set_def split: if_splits)
  show ?thesis
  proof (cases loud)
    case True
    define k where "k = numFramesToSkip N G i"
    from True rest have run: "mark_run k i s1 = Inr (i', s')"
      by (simp add: k_def)
    from mark_run_Inr [OF run] have i': "i' = i + k" and len: "length s' = length s1"
      and nth: "\<forall>j < length s1. s' ! j = (if i \<le> j \<and> j < i + k then Active else s1 ! j)"
      by simp_all
    from mark_run_bound [OF run] i i' upd have le: "i' \<le> length s"
      by auto
    have "s' ! j = (if j = i then Active else if i \<le> j \<and> j < i' then Active else s ! j)"
      if "j < length s" for j
      using that nth upd True i' by (cases "j = i") simp_all
    with loud True i le i' len upd show ?thesis
      by (intro exI [of _ True]) (simp add: k_def)
  next
    case False
    with rest have "i' = i" and "s' = s1" by simp_all
    with loud False i upd show ?thesis
      by (intro exI [of _ False]) (simp add: nth_list_update)
  qed
qed

lemma audio_frame_frame:
  assumes "audio_frame p a thr N G i s = Inr (i', s')"
  shows "i \<le> i'" and "i < length s" and "i' \<le> length s" and "length s' = length s"
    and "\<And>j. j < i \<Longrightarrow> s' ! j = s ! j"
    and "\<And>j. i' < j \<Longrightarrow> j < length s \<Longrightarrow> s' ! j = s ! j"
proof -
  from audio_frame_Inr [OF assms] obtain loud where i: "i < length s" and le: "i' \<le> length s"
    and i': "i' = (if loud then i + numFramesToSkip N G i else i)"
    and len: "length s' = length s"
    and nth: "\<And>j. j < length s \<Longrightarrow> s' ! j =
              (if j = i then (if loud then Active else Inactive)
               else if loud \<and> i \<le> j \<and> j < i' then Active else s ! j)"
    by blast
  show "i \<le> i'" using i' by simp
  then have ii: "i \<le> i'" .
  show "i < length s" by fact
  show "i' \<le> length s" by fact
  show "length s' = length s" by fact
  show "s' ! j = s ! j" if "j < i" for j
    using nth [of j] that i by simp
  show "s' ! j = s ! j" if "i' < j" "j < length s" for j
    using nth [of j] that ii by simp
qed

lemma audio_loop_below:
  "scan_result (audio_loop p a thr N G stop i s) = Some final \<Longrightarrow>
     length final = length s \<and> (\<forall>j < i. j < length s \<longrightarrow> final ! j = s ! j)"
proof (induction p a thr N G stop i s rule: audio_loop.induct)
  case (1 p a thr N G stop i s)
  show ?case
  proof (cases "i < N")
    case False
    with "1.prems" show ?thesis by (simp add: audio_loop.simps)
  next
    case True
    with "1.prems" obtain i' s' where fr: "audio_frame p a thr N G i s = Inr (i', s')"
      by (subst (asm) audio_loop.simps) (auto split: sum.splits)
    from audio_frame_frame [OF fr] have ii: "i \<le> i'" and len: "length s' = length s"
      and same: "\<forall>j < i. j < length s \<longrightarrow> s' ! j = s ! j"
      by simp_all
    show ?thesis
    proof (cases "i' mod 200 = 0 \<and> stop i'")
      case True
      with \<open>i < N\<close> fr "1.prems" have "final = s'"
        by (subst (asm) audio_loop.simps) simp
      with len same show ?thesis by simp
    next
      case False
      with \<open>i < N\<close> fr "1.prems"
      have "scan_result (audio_loop p a thr N G stop (i' + 1) s') = Some final"
        by (subst (asm) audio_loop.simps) simp
      from "1.IH" [OF \<open>i < N\<close> fr refl False this] len same ii show ?thesis
        by auto
    qed
  qed
qed

lemma audio_iter_loop:
  "audio_iter p a thr N G stop s0 i s \<Longrightarrow>
     audio_loop p a thr N G stop 0 s0 = audio_loop p a thr N G stop i s"
proof (induction rule: audio_iter.induct)
  case audio_iter_start
  show ?case by simp
next
  case (audio_iter_next i s i' s')
  have "audio_loop p a thr N G stop i s = audio_loop p a thr N G stop (i' + 1) s'"
    using audio_iter_next.hyps(2,3,4) by (subst audio_loop.simps) auto
  with audio_iter_next.IH show ?case by simp
qed

lemma numFramesToSkip_bound:
  assumes "i < N" and "i + G < 2 ^ 32"
  shows "i + numFramesToSkip N G i \<le> N"
proof -
  have "(i + G) mod 2 ^ 32 = i + G"
    using assms(2) by simp
  then show ?thesis
    using assms(1) by (simp add: numFramesToSkip_def)
qed

lemma numFramesToSkip_le: "numFramesToSkip N G i \<le> G \<or> numFramesToSkip N G i = N - i"
  by (simp add: numFramesToSkip_def)

lemma numFramesToSkip_covers:
  assumes "k < i + G" and "k < N"
  shows "k < i + numFramesToSkip N G i"
  using assms by (auto simp: numFramesToSkip_def)

text \<open>
  Where the frame count divides the sample count and the numbers are small enough for their
  type, the quotient and the product are computed without rounding, and the sample index
  is the exact product.
\<close>

lemma sampleOffs_exact:
  assumes "num_samples a = q * N" and "0 < N" and "N < 2 ^ p" and "q * N < 2 ^ p"
    and "i < 2 ^ p" and "q * i < 2 ^ p"
  shows "sampleOffs p a N i = q * i"
proof -
  have q: "q < 2 ^ p"
  proof -
    have "1 \<le> N" using assms(2) by simp
    then have "q * 1 \<le> q * N" by (rule mult_le_mono2)
    then have "q \<le> q * N" by simp
    with assms(4) show ?thesis by linarith
  qed
  have "binary p (real (q * N)) / binary p (real N) = real (q * N) / real N"
    using assms(3,4) by (simp only: binary_of_nat)
  also have "\<dots> = real q"
    using assms(2) by simp
  finally have "binary p (binary p (real (q * N)) / binary p (real N)) = real q"
    using q by (simp only: binary_of_nat)
  then have "binary p (binary p (binary p (real (q * N)) / binary p (real N)) * binary p (real i))
             = binary p (real q * real i)"
    using assms(5) by (simp only: binary_of_nat)
  also have "real q * real i = real (q * i)"
    by simp
  also have "binary p (real (q * i)) = real (q * i)"
    using assms(6) by (simp only: binary_of_nat)
  finally have "sampleOffs p a N i = nat \<lfloor>real (q * i)\<rfloor>"
    by (simp only: sampleOffs_def assms(1))
  also have "\<dots> = q * i"
    by (simp only: floor_of_nat nat_int)
  finally show ?thesis .
qed

lemma sampleOffs_same:
  assumes "num_samples a = N" and "0 < N" and "N < 2 ^ p" and "i < 2 ^ p"
  shows "sampleOffs p a N i = i"
  using sampleOffs_exact [of a 1 N p i] assms by simp

lemma audio_frame_ok:
  assumes "i < N" and "length s = N" and "N < 2 ^ 31" and "G \<le> N"
    and "\<forall>j < N. sampleOffs p a N j < length (samples a)"
  shows "\<exists>i' s'. audio_frame p a thr N G i s = Inr (i', s')"
proof -
  have "sampleOffs p a N i < length (samples a)"
    using assms(1,5) by simp
  then obtain loud where loud: "loudSample p a thr N i = Inr loud"
    by (simp add: loudSample_def sample_at_def)
  define s1 where "s1 = s[i := (if loud then Active else Inactive)]"
  have s1: "strip_set s i (if loud then Active else Inactive) = Inr s1"
    using assms(1,2,3) by (simp add: strip_set_def s1_def)
  have "i + G < 2 ^ 32"
    using assms(1,3,4) by simp
  then have "i + numFramesToSkip N G i \<le> length s1"
    using numFramesToSkip_bound [of i N G] assms(1,2) by (simp add: s1_def)
  moreover have "length s1 < 2 ^ 31"
    using assms(2,3) by (simp add: s1_def)
  ultimately obtain s' where "mark_run (numFramesToSkip N G i) i s1 = Inr (i + numFramesToSkip N G i, s')"
    using mark_run_ok by blast
  with loud s1 show ?thesis
    by (cases loud) (simp_all add: audio_frame_def)
qed

lemma audio_loop_total:
  "length s = N \<Longrightarrow> N < 2 ^ 31 \<Longrightarrow> G \<le> N \<Longrightarrow>
     \<forall>j < N. sampleOffs p a N j < length (samples a) \<Longrightarrow>
     \<exists>final. scan_result (audio_loop p a thr N G stop i s) = Some final"
proof (induction p a thr N G stop i s rule: audio_loop.induct)
  case (1 p a thr N G stop i s)
  show ?case
  proof (cases "i < N")
    case False
    then show ?thesis by (simp add: audio_loop.simps)
  next
    case True
    from audio_frame_ok [OF True "1.prems"] obtain i' s'
      where fr: "audio_frame p a thr N G i s = Inr (i', s')" by blast
    from audio_frame_frame(4) [OF fr] "1.prems"(1) have len: "length s' = N" by simp
    show ?thesis
    proof (cases "i' mod 200 = 0 \<and> stop i'")
      case True
      with \<open>i < N\<close> fr show ?thesis
        by (subst audio_loop.simps) simp
    next
      case False
      from "1.IH" [OF \<open>i < N\<close> fr refl False len "1.prems"(2,3,4)]
      obtain final where "scan_result (audio_loop p a thr N G stop (i' + 1) s') = Some final"
        by blast
      with \<open>i < N\<close> fr False show ?thesis
        by (subst audio_loop.simps) simp
    qed
  qed
qed



text \<open>
  The iterations that \<open>audio_steps\<close> finds are iterations of the loop; a check that
  finds the flag set ends the loop with the strip of that moment, and the loop is stopped by
  such a check only.
\<close>

lemma audio_steps_iter:
  "audio_steps p a thr N G stop n i s = Some (j, s') \<Longrightarrow>
     audio_iter p a thr N G stop s0 i s \<Longrightarrow> audio_iter p a thr N G stop s0 j s'"
proof (induction n arbitrary: i s)
  case 0
  then show ?case by simp
next
  case (Suc n)
  from Suc.prems(1) have iN: "i < N"
    by (simp split: if_splits)
  with Suc.prems(1) obtain i' s1 where fr: "audio_frame p a thr N G i s = Inr (i', s1)"
    and ns: "\<not> (i' mod 200 = 0 \<and> stop i')"
    and rest: "audio_steps p a thr N G stop n (i' + 1) s1 = Some (j, s')"
    by (auto split: sum.splits if_splits)
  from audio_iter_next [OF Suc.prems(2) iN fr ns]
  show ?case by (rule Suc.IH [OF rest])
qed

lemma audio_steps_unfold:
  "0 < n \<Longrightarrow> audio_steps p a thr N G stop n i s =
     (if i < N then
        (case audio_frame p a thr N G i s of
           Inl f \<Rightarrow> None
         | Inr (i', s') \<Rightarrow>
             if i' mod 200 = 0 \<and> stop i' then None
             else audio_steps p a thr N G stop (n - 1) (i' + 1) s')
      else None)"
  by (cases n) (simp_all split: sum.splits)



section \<open>Properties of the video loop\<close>

lemma video_frame_Inr:
  assumes "video_frame info G i (s, v, f) = Inr (i', s', v', f')"
  shows "\<exists>differ v1 f1. video_compare info v f = Inr (differ, v1, f1) \<and> i < length s \<and>
           length s' = length s \<and>
           (if differ then
              i' = i + numFramesToSkip (num_frames info) G i \<and> i' < length s \<and>
              (\<forall>j < length s. s' ! j =
                 (if j = i' then Inactive else if i \<le> j \<and> j < i' then Active else s ! j))
            else i' = i \<and> s' = s[i := Inactive])"
proof -
  from assms obtain differ v1 f1 s1 where cmp: "video_compare info v f = Inr (differ, v1, f1)"
    and s1: "strip_set s i (if differ then Active else Inactive) = Inr s1"
    and rest: "(if s1 ! i = Active then
                 (case mark_run (numFramesToSkip (num_frames info) G i) i s1 of
                    Inl f \<Rightarrow> Inl f
                  | Inr (i2, s2) \<Rightarrow>
                      (case strip_set s2 i2 Inactive of
                         Inl f \<Rightarrow> Inl f
                       | Inr s3 \<Rightarrow>
                           (case read_frame (v1\<lparr> pos := i2 \<rparr>) f1 of
                              (thisFrame', video2) \<Rightarrow> Inr (i2, s3, video2, thisFrame'))))
               else Inr (i, s1, v1, f1)) = Inr (i', s', v', f')"
    unfolding video_frame_def by (simp split: sum.splits prod.splits)
  from s1 have upd: "s1 = s[i := (if differ then Active else Inactive)]" and i: "i < length s"
    by (simp_all add: strip_set_def split: if_splits)
  then have act: "s1 ! i = Active \<longleftrightarrow> differ"
    by simp
  show ?thesis
  proof (cases differ)
    case True
    define k where "k = numFramesToSkip (num_frames info) G i"
    from True act rest obtain s2 where run: "mark_run k i s1 = Inr (i', s2)"
      and s3: "strip_set s2 i' Inactive = Inr s'"
      by (simp add: k_def split: sum.splits prod.splits)
    from mark_run_Inr [OF run] have i': "i' = i + k" and len2: "length s2 = length s1"
      and nth: "\<forall>j < length s1. s2 ! j = (if i \<le> j \<and> j < i + k then Active else s1 ! j)"
      by simp_all
    from s3 have upd3: "s' = s2[i' := Inactive]" and i'len: "i' < length s2"
      by (simp_all add: strip_set_def split: if_splits)
    have "s' ! j = (if j = i' then Inactive else if i \<le> j \<and> j < i' then Active else s ! j)"
      if "j < length s" for j
      using that nth upd upd3 True i' len2 i'len by (cases "j = i") (simp_all add: nth_list_update)
    with cmp True i i' len2 upd upd3 i'len show ?thesis
      by (intro exI [of _ True] exI [of _ v1] exI [of _ f1]) (simp add: k_def)
  next
    case False
    with act rest have "i' = i" and "s' = s1" by simp_all
    with cmp False i upd show ?thesis
      by (intro exI [of _ False] exI [of _ v1] exI [of _ f1]) simp
  qed
qed

lemma video_frame_frame:
  assumes "video_frame info G i st = Inr (i', st')"
  shows "i \<le> i'" and "i < length (fst st)" and "i' < length (fst st)"
    and "length (fst st') = length (fst st)"
    and "\<And>j. j < i \<Longrightarrow> fst st' ! j = fst st ! j"
    and "\<And>j. i' < j \<Longrightarrow> j < length (fst st) \<Longrightarrow> fst st' ! j = fst st ! j"
proof -
  obtain s v f where st: "st = (s, v, f)" by (cases st)
  obtain s' v' f' where st': "st' = (s', v', f')" by (cases st')
  from video_frame_Inr [OF assms [unfolded st st']] obtain differ
    where i: "i < length s" and len: "length s' = length s"
      and d: "if differ then
              i' = i + numFramesToSkip (num_frames info) G i \<and> i' < length s \<and>
              (\<forall>j < length s. s' ! j =
                 (if j = i' then Inactive else if i \<le> j \<and> j < i' then Active else s ! j))
            else i' = i \<and> s' = s[i := Inactive]"
    by blast
  show ii: "i \<le> i'" using d by (simp split: if_splits)
  show "i < length (fst st)" using i st by simp
  show "i' < length (fst st)" using d i st by (simp split: if_splits)
  show "length (fst st') = length (fst st)" using len st st' by simp
  show "fst st' ! j = fst st ! j" if "j < i" for j
    using d that i st st' by (cases differ) simp_all
  show "fst st' ! j = fst st ! j" if "i' < j" "j < length (fst st)" for j
    using d that ii st st' by (cases differ) simp_all
qed

lemma video_loop_below:
  "scan_result (video_loop info G stop i st) = Some final \<Longrightarrow>
     length final = length (fst st) \<and> (\<forall>j < i. j < length (fst st) \<longrightarrow> final ! j = fst st ! j)"
proof (induction info G stop i st rule: video_loop.induct)
  case (1 info G stop i st)
  show ?case
  proof (cases "i < num_frames info")
    case False
    with "1.prems" show ?thesis by (simp add: video_loop.simps)
  next
    case True
    with "1.prems" obtain i' st' where fr: "video_frame info G i st = Inr (i', st')"
      by (subst (asm) video_loop.simps) (auto split: sum.splits)
    from video_frame_frame [OF fr] have ii: "i \<le> i'" and len: "length (fst st') = length (fst st)"
      and same: "\<forall>j < i. j < length (fst st) \<longrightarrow> fst st' ! j = fst st ! j"
      by simp_all
    show ?thesis
    proof (cases "i' mod 200 = 0 \<and> stop i'")
      case True
      with \<open>i < num_frames info\<close> fr "1.prems" have "final = fst st'"
        by (subst (asm) video_loop.simps) simp
      with len same show ?thesis by simp
    next
      case False
      with \<open>i < num_frames info\<close> fr "1.prems"
      have "scan_result (video_loop info G stop (i' + 1) st') = Some final"
        by (subst (asm) video_loop.simps) simp
      from "1.IH" [OF \<open>i < num_frames info\<close> fr refl False this] len same ii show ?thesis
        by auto
    qed
  qed
qed

lemma video_iter_loop:
  "video_iter info G stop st1 i st \<Longrightarrow>
     video_loop info G stop 1 st1 = video_loop info G stop i st"
proof (induction rule: video_iter.induct)
  case video_iter_start
  show ?case by simp
next
  case (video_iter_next i st i' st')
  have "video_loop info G stop i st = video_loop info G stop (i' + 1) st'"
    using video_iter_next.hyps(2,3,4) by (subst video_loop.simps) auto
  with video_iter_next.IH show ?case by simp
qed



lemma video_steps_iter:
  "video_steps info G stop n i st = Some (j, st') \<Longrightarrow>
     video_iter info G stop st1 i st \<Longrightarrow> video_iter info G stop st1 j st'"
proof (induction n arbitrary: i st)
  case 0
  then show ?case by simp
next
  case (Suc n)
  from Suc.prems(1) have iN: "i < num_frames info"
    by (simp split: if_splits)
  with Suc.prems(1) obtain i' st2 where fr: "video_frame info G i st = Inr (i', st2)"
    and ns: "\<not> (i' mod 200 = 0 \<and> stop i')"
    and rest: "video_steps info G stop n (i' + 1) st2 = Some (j, st')"
    by (auto split: sum.splits if_splits)
  from video_iter_next [OF Suc.prems(2) iN fr ns]
  show ?case by (rule Suc.IH [OF rest])
qed

lemma video_steps_unfold:
  "0 < n \<Longrightarrow> video_steps info G stop n i st =
     (if i < num_frames info then
        (case video_frame info G i st of
           Inl f \<Rightarrow> None
         | Inr (i', st') \<Rightarrow>
             if i' mod 200 = 0 \<and> stop i' then None
             else video_steps info G stop (n - 1) (i' + 1) st')
      else None)"
  by (cases n) (simp_all split: sum.splits)



text \<open>
  Behind a run that ends before the last frame the video loop leaves the \<open>Inactive\<close>
  baseline entry.
\<close>

lemma video_loop_baseline:
  assumes res: "scan_result (video_loop info G stop i (s, cap, thisFrame)) = Some final"
    and iN: "i < num_frames info"
    and differ: "video_compare info cap thisFrame = Inr (True, cap', thisFrame')"
    and room: "i + G < num_frames info"
  shows "final ! (i + G) = Inactive"
proof -
  from res iN obtain i' st' where fr: "video_frame info G i (s, cap, thisFrame) = Inr (i', st')"
    by (subst (asm) video_loop.simps) (auto split: sum.splits)
  obtain s' v' f' where st': "st' = (s', v', f')" by (cases st')
  have "(i + G) mod 2 ^ 32 \<le> i + G"
    by (rule mod_less_eq_dividend)
  with room have "\<not> num_frames info < (i + G) mod 2 ^ 32"
    by linarith
  then have skip: "numFramesToSkip (num_frames info) G i = G"
    by (simp only: numFramesToSkip_def if_False)
  from video_frame_Inr [OF fr [unfolded st']] differ skip
  have i': "i' = i + G"
    and le: "i' < length s" and len: "length s' = length s"
    and nth: "\<And>j. j < length s \<Longrightarrow> s' ! j =
              (if j = i' then Inactive else if i \<le> j \<and> j < i' then Active else s ! j)"
    by auto
  from nth [of i'] le have base: "s' ! i' = Inactive"
    by simp
  show ?thesis
  proof (cases "i' mod 200 = 0 \<and> stop i'")
    case True
    with iN fr res st' have "final = s'"
      by (subst (asm) video_loop.simps) simp
    with base i' show ?thesis by simp
  next
    case False
    with iN fr res have "scan_result (video_loop info G stop (i' + 1) st') = Some final"
      by (subst (asm) video_loop.simps) simp
    from video_loop_below [OF this] le len base st' i' show ?thesis
      by simp
  qed
qed

section \<open>What the frame-difference predicate computes\<close>

text \<open>
  \<open>brighter p q threshold\<close>: in some channel the pixel \<open>p\<close> exceeds the pixel \<open>q\<close> by
  more than the threshold. On frames of equal size \<open>frames_differ\<close> finds exactly the
  pixels of \<open>frame1\<close> that are brighter than their partners in \<open>frame2\<close>; a pixel that is
  darker by any amount does not count.
\<close>

definition brighter :: "Vec3b \<Rightarrow> Vec3b \<Rightarrow> u8 \<Rightarrow> bool" where
  "brighter p q threshold =
     (case p of (p0, p1, p2) \<Rightarrow> case q of (q0, q1, q2) \<Rightarrow>
        uint q0 + uint threshold < uint p0 \<or> uint q1 + uint threshold < uint p1 \<or>
        uint q2 + uint threshold < uint p2)"

lemma saturate_sub_exceeds:
  "uint t < uint (saturate_sub a b) \<longleftrightarrow> uint b + uint t < uint a"
proof (cases "b \<le> a")
  case True
  then have le: "uint b \<le> uint a"
    by (simp add: word_le_def)
  then have "uint (a - b) = uint a - uint b"
    by (rule uint_sub_lem [THEN iffD1])
  with True le show ?thesis
    by (auto simp: saturate_sub_def)
next
  case False
  then have "uint a < uint b"
    by (simp add: word_le_def)
  moreover have "0 \<le> uint t"
    by simp
  ultimately have "\<not> uint b + uint t < uint a"
    by linarith
  moreover have "\<not> uint t < 0"
    by simp
  ultimately show ?thesis
    using False by (simp add: saturate_sub_def)
qed

lemma pixel_exceeds_vec_sub: "pixel_exceeds (vec_sub p q) t = brighter p q t"
  by (cases p, cases q) (simp add: pixel_exceeds_def vec_sub_def brighter_def saturate_sub_exceeds)

lemma scan_cols_iff:
  "scan_cols d t y x k \<longleftrightarrow> (\<exists>j < k. pixel_exceeds (at_Vec3b d y (x + j)) t)"
proof (induction k arbitrary: x)
  case 0
  show ?case by simp
next
  case (Suc k)
  have "(\<exists>j < Suc k. pixel_exceeds (at_Vec3b d y (x + j)) t) \<longleftrightarrow>
        pixel_exceeds (at_Vec3b d y x) t \<or> (\<exists>j < k. pixel_exceeds (at_Vec3b d y (x + 1 + j)) t)"
    (is "?L \<longleftrightarrow> ?R")
  proof
    assume ?L
    then obtain j where j: "j < Suc k" "pixel_exceeds (at_Vec3b d y (x + j)) t" by blast
    show ?R
    proof (cases j)
      case 0
      with j show ?thesis by simp
    next
      case (Suc j')
      with j have "j' < k" "pixel_exceeds (at_Vec3b d y (x + 1 + j')) t" by simp_all
      then show ?thesis by blast
    qed
  next
    assume ?R
    then show ?L
    proof
      assume "pixel_exceeds (at_Vec3b d y x) t"
      then have "pixel_exceeds (at_Vec3b d y (x + 0)) t" by simp
      then show ?L by blast
    next
      assume "\<exists>j < k. pixel_exceeds (at_Vec3b d y (x + 1 + j)) t"
      then obtain j where "j < k" "pixel_exceeds (at_Vec3b d y (x + 1 + j)) t" by blast
      then have "Suc j < Suc k" "pixel_exceeds (at_Vec3b d y (x + Suc j)) t" by simp_all
      then show ?L by blast
    qed
  qed
  with Suc.IH [of "x + 1"] show ?case
    by simp
qed

lemma scan_rows_iff:
  "scan_rows d t n y k \<longleftrightarrow> (\<exists>j < k. \<exists>x < n. pixel_exceeds (at_Vec3b d (y + j) x) t)"
proof (induction k arbitrary: y)
  case 0
  show ?case by simp
next
  case (Suc k)
  let ?P = "\<lambda>r. \<exists>x < n. pixel_exceeds (at_Vec3b d r x) t"
  have "(\<exists>j < Suc k. ?P (y + j)) \<longleftrightarrow> ?P y \<or> (\<exists>j < k. ?P (y + 1 + j))"
    (is "?L \<longleftrightarrow> ?R")
  proof
    assume ?L
    then obtain j where j: "j < Suc k" "?P (y + j)" by blast
    show ?R
    proof (cases j)
      case 0
      with j show ?thesis by simp
    next
      case (Suc j')
      with j have "j' < k" "?P (y + 1 + j')" by simp_all
      then show ?thesis by blast
    qed
  next
    assume ?R
    then show ?L
    proof
      assume "?P y"
      then have "?P (y + 0)" by simp
      then show ?L by blast
    next
      assume "\<exists>j < k. ?P (y + 1 + j)"
      then obtain j where "j < k" "?P (y + 1 + j)" by blast
      then have "Suc j < Suc k" "?P (y + Suc j)" by simp_all
      then show ?L by blast
    qed
  qed
  moreover have "scan_rows d t n (Suc y) k \<longleftrightarrow> (\<exists>j < k. ?P (y + 1 + j))"
    using Suc.IH [of "y + 1"] by simp
  moreover have "scan_cols d t y 0 n \<longleftrightarrow> ?P y"
    by (simp add: scan_cols_iff)
  ultimately show ?case
    by auto
qed

lemma frames_differ_iff:
  assumes "rows frame1 = rows frame2" and "cols frame1 = cols frame2"
  shows "frames_differ frame1 frame2 threshold =
         Inr (\<exists>y < rows frame1. \<exists>x < cols frame1.
                brighter (at_Vec3b frame1 y x) (at_Vec3b frame2 y x) threshold)"
  using assms
  by (simp add: frames_differ_def Let_def scan_rows_iff mat_sub_def pixel_exceeds_vec_sub)

section \<open>Concrete inputs\<close>

text \<open>
  A frame of one pixel whose first channel is \<open>v\<close> and whose other channels are 0; a
  capture of \<open>n\<close> such frames; the object as the constructor leaves it for a video of
  \<open>n\<close> frames of one pixel; and an object with two hand-written strips.
\<close>

definition one_pixel :: "u8 \<Rightarrow> Mat" where
  "one_pixel v = \<lparr> rows = 1, cols = 1, channels = 3, at_Vec3b = (\<lambda>y x. (v, 0, 0)) \<rparr>"

definition film :: "nat \<Rightarrow> (nat \<Rightarrow> u8) \<Rightarrow> VideoCapture" where
  "film n v = \<lparr> isOpened = True, frames = map (\<lambda>k. one_pixel (v k)) [0 ..< n], pos = 0 \<rparr>"

definition fresh :: "nat \<Rightarrow> video_activity_c" where
  "fresh n =
     \<lparr> videoInfo = \<lparr> num_frames = n, width = 1, height = 1 \<rparr>,
       videoFrameIsActive = replicate n Uninitialized,
       audioFrameIsActive = replicate n Uninitialized,
       audio = None \<rparr>"

definition segment_example :: video_activity_c where
  "segment_example =
     \<lparr> videoInfo = \<lparr> num_frames = 5, width = 1, height = 1 \<rparr>,
       videoFrameIsActive = [Inactive, Active, Active, Active, Inactive],
       audioFrameIsActive = [Active, Active, Inactive, Inactive, Inactive],
       audio = None \<rparr>"

text \<open>
  Audio tracks: one loud sample; seven silent samples; 54 samples, silent but for sample
  27; 150 loud samples; and 100 loud samples followed by 102 silent ones.
\<close>

definition loud_track :: audio_file_c where
  "loud_track = \<lparr> has_valid_audio_data = True, samples = [1000] \<rparr>"

definition seven_samples :: audio_file_c where
  "seven_samples = \<lparr> has_valid_audio_data = True, samples = [0, 0, 0, 0, 0, 0, 0] \<rparr>"

definition spike_track :: audio_file_c where
  "spike_track = \<lparr> has_valid_audio_data = True,
               samples = replicate 27 0 @ 1000 # replicate 26 0 \<rparr>"

definition loud_everywhere :: audio_file_c where
  "loud_everywhere = \<lparr> has_valid_audio_data = True, samples = replicate 150 1000 \<rparr>"


lemma construct_fresh: "0 < n \<Longrightarrow> construct \<lparr> num_frames = n, width = 1, height = 1 \<rparr> = Inr (fresh n)"
  by (simp add: construct_def fresh_def)

lemma mark_run_unfold:
  "0 < k \<Longrightarrow> mark_run k i s =
     (case strip_set s i Active of Inl f \<Rightarrow> Inl f | Inr s' \<Rightarrow> mark_run (k - 1) (i + 1) s')"
  by (cases k) (simp_all split: sum.splits)

lemma frames_differ_one_pixel:
  "frames_differ (one_pixel a) (one_pixel b) t = Inr (uint t < uint (saturate_sub a b))"
  by (simp add: frames_differ_def mat_sub_def vec_sub_def pixel_exceeds_def one_pixel_def
      saturate_sub_def Let_def)

lemma one_pixel_sel:
  "rows (one_pixel a) = 1" "cols (one_pixel a) = 1" "channels (one_pixel a) = 3"
  by (simp_all add: one_pixel_def)

lemmas video_eval = mark_video_frame_activity_def video_first_def read_frame_def empty_Mat_def
  video_loop.simps video_frame_def video_compare_def total_def
  TIME_GRANULARITY_DIVISOR_def strip_set_def numFramesToSkip_def Let_def
  frames_differ_one_pixel one_pixel_sel saturate_sub_def mark_run_unfold fresh_def film_def

lemmas audio_eval = mark_audio_frame_activity_def extract_audio_def has_valid_audio_def
  TIME_GRANULARITY_DIVISOR_def audio_loop.simps audio_frame_def loudSample_def
  sample_at_def strip_set_def numFramesToSkip_def Let_def mark_run_unfold fresh_def

lemmas float_eval = sampleOffs_def binary_eval

lemmas steps_eval = audio_steps_unfold audio_frame_def loudSample_def sample_at_def strip_set_def
  numFramesToSkip_def mark_run_unfold

lemmas vsteps_eval = video_steps_unfold video_first_def read_frame_def empty_Mat_def
  video_frame_def video_compare_def total_def
  TIME_GRANULARITY_DIVISOR_def strip_set_def numFramesToSkip_def Let_def
  frames_differ_one_pixel one_pixel_sel saturate_sub_def mark_run_unfold fresh_def film_def

section \<open>The member functions and their loops\<close>

lemma scan_result_map_scan: "scan_result (map_scan g r) = map_option g (scan_result r)"
  by (cases r) simp_all


lemma video_first_Inr:
  "video_first video s = Inr st1 \<Longrightarrow> 0 < length s \<and> fst st1 = s[0 := Inactive]"
  by (auto simp: video_first_def strip_set_def split: prod.splits sum.splits if_splits)

lemma video_iter_zero:
  "video_iter info G stop st1 i st \<Longrightarrow>
     1 \<le> i \<and> length (fst st) = length (fst st1) \<and> fst st ! 0 = fst st1 ! 0"
proof (induction rule: video_iter.induct)
  case video_iter_start
  show ?case by simp
next
  case (video_iter_next i st i' st')
  from video_frame_frame(4,5) [OF video_iter_next.hyps(3)] video_iter_next.IH
  show ?case by simp
qed

lemma mark_video_result:
  assumes "scan_result (mark_video_frame_activity video stop this) = Some this'"
  shows "\<exists>st1 s. isOpened video \<and> video_first video (videoFrameIsActive this) = Inr st1 \<and>
           scan_result (video_loop (videoInfo this) (num_frames (videoInfo this) div TIME_GRANULARITY_DIVISOR)
              stop 1 st1) = Some s \<and>
           this' = this\<lparr> videoFrameIsActive := s \<rparr>"
  using assms
  by (auto simp: mark_video_frame_activity_def Let_def split: if_splits sum.splits scan.splits)



lemma extract_audio_same:
  "videoInfo (extract_audio extracted this) = videoInfo this"
  "videoFrameIsActive (extract_audio extracted this) = videoFrameIsActive this"
  "audioFrameIsActive (extract_audio extracted this) = audioFrameIsActive this"
  by (simp_all add: extract_audio_def split: option.splits)

lemma mark_audio_valid:
  assumes "has_valid_audio (extract_audio extracted this)" and "0 < num_frames (videoInfo this)"
  shows "mark_audio_frame_activity p extracted stop this =
         map_scan (\<lambda>s. (extract_audio extracted this)\<lparr> audioFrameIsActive := s \<rparr>)
           (audio_loop p (the (audio (extract_audio extracted this)))
              (thresholdAmplitude p (the (audio (extract_audio extracted this))))
              (num_frames (videoInfo this))
              (num_frames (videoInfo this) div TIME_GRANULARITY_DIVISOR) stop 0
              (audioFrameIsActive this))"
  using assms by (simp add: mark_audio_frame_activity_def Let_def extract_audio_same)











lemma audio_loop_run:
  assumes res: "scan_result (audio_loop p a thr N G stop i s) = Some final"
    and iN: "i < N" and loud: "loudSample p a thr N i = Inr True"
    and k: "i \<le> k" "k < i + G" "k < N"
  shows "final ! k = Active"
proof -
  from res iN obtain i' s' where fr: "audio_frame p a thr N G i s = Inr (i', s')"
    by (subst (asm) audio_loop.simps) (auto split: sum.splits)
  from audio_frame_Inr [OF fr] loud have i': "i' = i + numFramesToSkip N G i"
    and le: "i' \<le> length s" and len: "length s' = length s"
    and nth: "\<And>j. j < length s \<Longrightarrow> s' ! j =
              (if j = i then Active else if i \<le> j \<and> j < i' then Active else s ! j)"
    by auto
  from numFramesToSkip_covers [OF k(2,3)] i' have ki: "k < i'"
    by simp
  with le k(1) nth [of k] have act: "s' ! k = Active"
    by simp
  show ?thesis
  proof (cases "i' mod 200 = 0 \<and> stop i'")
    case True
    with iN fr res have "final = s'"
      by (subst (asm) audio_loop.simps) simp
    with act show ?thesis by simp
  next
    case False
    with iN fr res have "scan_result (audio_loop p a thr N G stop (i' + 1) s') = Some final"
      by (subst (asm) audio_loop.simps) simp
    from audio_loop_below [OF this] ki le len act show ?thesis
      by simp
  qed
qed

lemma video_loop_run:
  assumes res: "scan_result (video_loop info G stop i (s, cap, thisFrame)) = Some final"
    and iN: "i < num_frames info"
    and differ: "video_compare info cap thisFrame = Inr (True, cap', thisFrame')"
    and k: "i \<le> k" "k < i + G" "k < num_frames info"
  shows "final ! k = Active"
proof -
  from res iN obtain i' st' where fr: "video_frame info G i (s, cap, thisFrame) = Inr (i', st')"
    by (subst (asm) video_loop.simps) (auto split: sum.splits)
  obtain s' v' f' where st': "st' = (s', v', f')" by (cases st')
  from video_frame_Inr [OF fr [unfolded st']] differ
  have i': "i' = i + numFramesToSkip (num_frames info) G i"
    and le: "i' < length s" and len: "length s' = length s"
    and nth: "\<And>j. j < length s \<Longrightarrow> s' ! j =
              (if j = i' then Inactive else if i \<le> j \<and> j < i' then Active else s ! j)"
    by auto
  from numFramesToSkip_covers [OF k(2,3)] i' have ki: "k < i'"
    by simp
  with le k(1) nth [of k] have act: "s' ! k = Active"
    by simp
  show ?thesis
  proof (cases "i' mod 200 = 0 \<and> stop i'")
    case True
    with iN fr res st' have "final = s'"
      by (subst (asm) video_loop.simps) simp
    with act show ?thesis by simp
  next
    case False
    with iN fr res have "scan_result (video_loop info G stop (i' + 1) st') = Some final"
      by (subst (asm) video_loop.simps) simp
    from video_loop_below [OF this] ki le len act st' show ?thesis
      by simp
  qed
qed

lemma video_evaluates_first:
  "video_evaluates (film 50 (\<lambda>k. if k = 1 then 255 else 0)) stop (fresh 50) 1 True"
proof -
  let ?film = "film 50 (\<lambda>k. if k = 1 then 255 else 0)"
  obtain st1 where first: "video_first ?film (videoFrameIsActive (fresh 50)) = Inr st1"
    by (simp add: video_eval del: One_nat_def)
  obtain s cap thisFrame where st1: "st1 = (s, cap, thisFrame)"
    by (cases st1)
  have "\<exists>cap' thisFrame'. video_compare (videoInfo (fresh 50)) cap thisFrame = Inr (True, cap', thisFrame')"
    using first [unfolded st1] by (auto simp add: video_eval simp del: One_nat_def)
  then obtain cap' thisFrame'
    where cmp: "video_compare (videoInfo (fresh 50)) cap thisFrame = Inr (True, cap', thisFrame')"
    by blast
  have "video_iter (videoInfo (fresh 50)) (num_frames (videoInfo (fresh 50)) div TIME_GRANULARITY_DIVISOR)
          stop st1 1 (s, cap, thisFrame)"
    unfolding st1 [symmetric] by (rule video_iter_start)
  with first cmp have "\<exists>st1 s cap thisFrame cap' thisFrame'.
         video_first ?film (videoFrameIsActive (fresh 50)) = Inr st1 \<and>
         video_iter (videoInfo (fresh 50)) (num_frames (videoInfo (fresh 50)) div TIME_GRANULARITY_DIVISOR)
           stop st1 1 (s, cap, thisFrame) \<and>
         video_compare (videoInfo (fresh 50)) cap thisFrame = Inr (True, cap', thisFrame')"
    by blast
  moreover have "isOpened ?film" and "1 < num_frames (videoInfo (fresh 50))"
    by (simp_all add: film_def fresh_def)
  ultimately show ?thesis
    unfolding video_evaluates_def by simp
qed

lemma seven_samples_sel:
  "has_valid_audio_data seven_samples" "samples seven_samples = [0, 0, 0, 0, 0, 0, 0]"
  "num_samples seven_samples = 7"
  by (simp_all add: seven_samples_def num_samples_def)

lemma wrap_i64_id:
  assumes "- (2 ^ 63) \<le> x" and "x < 2 ^ 63"
  shows "wrap_i64 x = x"
proof -
  have "0 \<le> x + 2 ^ 63" and "x + 2 ^ 63 < 2 ^ 64"
    using assms by simp_all
  then have "(x + 2 ^ 63) mod 2 ^ 64 = x + 2 ^ 63"
    by (rule mod_pos_pos_trivial)
  then show ?thesis
    by (simp add: wrap_i64_def)
qed

lemma amplitude_pass_sum:
  "\<forall>x \<in> set xs. \<bar>x\<bar> < 2 ^ 31 \<Longrightarrow> \<bar>acc\<bar> + 2 ^ 31 * int (length xs) < 2 ^ 63 \<Longrightarrow>
     fst (amplitude_pass xs acc m) = acc + sum_list xs"
proof (induction xs arbitrary: acc m)
  case Nil
  then show ?case by simp
next
  case (Cons x xs)
  from Cons.prems have x: "\<bar>x\<bar> < 2 ^ 31" and rest: "\<forall>y \<in> set xs. \<bar>y\<bar> < 2 ^ 31"
    by simp_all
  from Cons.prems(2) have b: "\<bar>acc\<bar> + 2 ^ 31 + 2 ^ 31 * int (length xs) < 2 ^ 63"
    by (simp add: algebra_simps)
  have "0 \<le> (2 ^ 31 :: int) * int (length xs)"
    by simp
  with b x have small: "\<bar>acc + x\<bar> < 2 ^ 63"
    by linarith
  then have w: "wrap_i64 (acc + x) = acc + x"
    by (intro wrap_i64_id) linarith+
  have "\<bar>acc + x\<bar> + 2 ^ 31 * int (length xs) < 2 ^ 63"
    using b x by linarith
  from Cons.IH [OF rest this] w show ?case
    by simp
qed

lemma amplitude_pass_max:
  "snd (amplitude_pass xs acc m) = Max (insert m ((\<lambda>x. nat \<bar>x\<bar>) ` set xs))"
proof (induction xs arbitrary: acc m)
  case Nil
  show ?case by simp
next
  case (Cons x xs)
  let ?S = "(\<lambda>x. nat \<bar>x\<bar>) ` set xs"
  have "Max (insert (if m < nat \<bar>x\<bar> then nat \<bar>x\<bar> else m) ?S) = Max (insert m (insert (nat \<bar>x\<bar>) ?S))"
  proof (cases "?S = {}")
    case True
    then show ?thesis by (simp add: max_def)
  next
    case False
    then show ?thesis by (simp add: max_def)
  qed
  with Cons.IH show ?case
    by simp
qed

lemma amplitude_pass_append:
  "amplitude_pass (xs @ ys) s m =
     amplitude_pass ys (fst (amplitude_pass xs s m)) (snd (amplitude_pass xs s m))"
  by (induction xs arbitrary: s m) simp_all

lemma amplitude_pass_zeros:
  "- (2 ^ 63) \<le> s \<Longrightarrow> s < 2 ^ 63 \<Longrightarrow> amplitude_pass (replicate n 0) s m = (s, m)"
  by (induction n) (simp_all add: wrap_i64_id)

lemma amplitude_pass_constant:
  "0 \<le> c \<Longrightarrow> c < 2 ^ 31 \<Longrightarrow> 0 \<le> s \<Longrightarrow> s + int n * c < 2 ^ 63 \<Longrightarrow>
     amplitude_pass (replicate n c) s m = (s + int n * c, if n = 0 then m else max m (nat c))"
proof (induction n arbitrary: s m)
  case 0
  then show ?case by simp
next
  case (Suc n)
  have nc: "0 \<le> int n * c"
    using Suc.prems(1) by simp
  have "s + c + int n * c = s + int (Suc n) * c"
    by (simp add: algebra_simps)
  with Suc.prems(4) have b: "s + c + int n * c < 2 ^ 63"
    by simp
  with nc have "s + c < 2 ^ 63"
    by linarith
  with Suc.prems(1,3) have w: "wrap_i64 (s + c) = s + c"
    by (intro wrap_i64_id) linarith+
  have "0 \<le> s + c"
    using Suc.prems(1,3) by simp
  from Suc.IH [OF Suc.prems(1,2) this b] w Suc.prems(1) show ?case
    by (auto simp: algebra_simps max_def)
qed

lemma loudSample_Inr:
  "loudSample p a thr N i = Inr loud \<Longrightarrow>
     sampleOffs p a N i < length (samples a) \<and>
     loud = (\<bar>real_of_int (samples a ! sampleOffs p a N i)\<bar> > \<bar>thr\<bar>)"
  by (auto simp: loudSample_def sample_at_def split: if_splits)

lemma audio_loop_entry:
  assumes res: "scan_result (audio_loop p a thr N G stop i s) = Some final"
    and iN: "i < N" and loud: "loudSample p a thr N i = Inr loud"
  shows "final ! i = (if loud then Active else Inactive)"
proof -
  from res iN obtain i' s' where fr: "audio_frame p a thr N G i s = Inr (i', s')"
    by (subst (asm) audio_loop.simps) (auto split: sum.splits)
  from audio_frame_Inr [OF fr] loud have i: "i < length s" and len: "length s' = length s"
    and nth: "\<And>j. j < length s \<Longrightarrow> s' ! j =
              (if j = i then (if loud then Active else Inactive)
               else if loud \<and> i \<le> j \<and> j < i' then Active else s ! j)"
    by auto
  from audio_frame_frame(1) [OF fr] have ii: "i \<le> i'" .
  from nth [of i] i have act: "s' ! i = (if loud then Active else Inactive)"
    by simp
  show ?thesis
  proof (cases "i' mod 200 = 0 \<and> stop i'")
    case True
    with iN fr res have "final = s'"
      by (subst (asm) audio_loop.simps) simp
    with act show ?thesis by simp
  next
    case False
    with iN fr res have "scan_result (audio_loop p a thr N G stop (i' + 1) s') = Some final"
      by (subst (asm) audio_loop.simps) simp
    from audio_loop_below [OF this] ii i len act show ?thesis
      by simp
  qed
qed

text \<open>
  A video scan that finishes has written every entry of its strip, and an audio scan on an
  object as constructed is never aborted when the sample index of every frame lies inside
  the track.
\<close>

lemma video_loop_written:
  "video_loop info G stop i st = Finished final \<Longrightarrow>
     \<forall>j < i. j < length (fst st) \<longrightarrow> fst st ! j \<noteq> Uninitialized \<Longrightarrow>
     length (fst st) \<le> num_frames info \<Longrightarrow>
     \<forall>j < length final. final ! j \<noteq> Uninitialized"
proof (induction info G stop i st rule: video_loop.induct)
  case (1 info G stop i st)
  show ?case
  proof (cases "i < num_frames info")
    case False
    with "1.prems" show ?thesis
      by (simp add: video_loop.simps)
  next
    case True
    with "1.prems"(1) obtain i' st' where fr: "video_frame info G i st = Inr (i', st')"
      by (subst (asm) video_loop.simps) (auto split: sum.splits)
    from True fr "1.prems"(1) have ns: "\<not> (i' mod 200 = 0 \<and> stop i')"
      by (subst (asm) video_loop.simps) (auto split: if_splits)
    with True fr "1.prems"(1) have next_loop: "video_loop info G stop (i' + 1) st' = Finished final"
      by (subst (asm) video_loop.simps) simp
    obtain s v f where st: "st = (s, v, f)" by (cases st)
    obtain s' v' f' where st': "st' = (s', v', f')" by (cases st')
    from video_frame_Inr [OF fr [unfolded st st']] obtain differ
      where len: "length s' = length s"
        and d: "if differ then
                  i' = i + numFramesToSkip (num_frames info) G i \<and> i' < length s \<and>
                  (\<forall>j < length s. s' ! j =
                     (if j = i' then Inactive else if i \<le> j \<and> j < i' then Active else s ! j))
                else i' = i \<and> s' = s[i := Inactive]"
      by blast
    have "s' ! j \<noteq> Uninitialized" if "j < i' + 1" "j < length s'" for j
    proof (cases differ)
      case True
      with d that len "1.prems"(2) st show ?thesis
        by (cases "j < i") auto
    next
      case False
      with d that len "1.prems"(2) st show ?thesis
        by (cases "j = i") auto
    qed
    then have "\<forall>j < i' + 1. j < length (fst st') \<longrightarrow> fst st' ! j \<noteq> Uninitialized"
      using st' by simp
    moreover have "length (fst st') \<le> num_frames info"
      using "1.prems"(3) len st st' by simp
    ultimately show ?thesis
      using "1.IH" [OF True fr refl ns next_loop] by blast
  qed
qed

lemma mark_video_Finished_written:
  assumes "mark_video_frame_activity video stop this = Finished this'"
  shows "length (videoFrameIsActive this') = num_frames (videoInfo this) \<and>
         (\<forall>j < length (videoFrameIsActive this'). videoFrameIsActive this' ! j \<noteq> Uninitialized)"
proof -
  let ?G = "num_frames (videoInfo this) div TIME_GRANULARITY_DIVISOR"
  from assms obtain st1 final
    where first: "video_first video (videoFrameIsActive this) = Inr st1"
      and fin: "video_loop (videoInfo this) ?G stop 1 st1 = Finished final"
      and len: "length final = num_frames (videoInfo this)"
      and this': "this' = this\<lparr> videoFrameIsActive := final \<rparr>"
    by (auto simp: mark_video_frame_activity_def Let_def split: if_splits sum.splits scan.splits)
  have "scan_result (video_loop (videoInfo this) ?G stop 1 st1) = Some final"
    using fin by simp
  from video_loop_below [OF this] len have l1: "length (fst st1) \<le> num_frames (videoInfo this)"
    by simp
  from video_first_Inr [OF first] have "\<forall>j < 1. j < length (fst st1) \<longrightarrow> fst st1 ! j \<noteq> Uninitialized"
    by simp
  from video_loop_written [OF fin this l1] len this' show ?thesis
    by simp
qed

lemma mark_audio_returns:
  assumes "has_valid_audio (extract_audio extracted this)"
    and "\<forall>j < num_frames (videoInfo this).
           sampleOffs p (the (audio (extract_audio extracted this))) (num_frames (videoInfo this)) j
             < length (samples (the (audio (extract_audio extracted this))))"
    and "length (audioFrameIsActive this) = num_frames (videoInfo this)"
    and "0 < num_frames (videoInfo this)" and "num_frames (videoInfo this) < 2 ^ 31"
  shows "\<exists>this'. scan_result (mark_audio_frame_activity p extracted stop this) = Some this'"
proof -
  have "num_frames (videoInfo this) div TIME_GRANULARITY_DIVISOR \<le> num_frames (videoInfo this)"
    by simp
  from audio_loop_total [OF assms(3,5) this assms(2)]
  show ?thesis
    unfolding mark_audio_valid [OF assms(1,4)] scan_result_map_scan by auto
qed

section \<open>Scans of the concrete inputs\<close>

text \<open>
  The samples, the pass over them and the threshold of each track, in \<open>double\<close>; the
  sample indices of two frames of the 54-sample track in a scan of 98 frames; and frames that
  the scans of these inputs evaluate directly.
\<close>

lemma loud_track_sel:
  "has_valid_audio_data loud_track" "samples loud_track = [1000]" "num_samples loud_track = 1"
  by (simp_all add: loud_track_def num_samples_def)

lemma loud_track_thr: "thresholdAmplitude 53 loud_track = 0" "thresholdAmplitude 24 loud_track = 0"
  by (simp_all add: thresholdAmplitude_def avgAmplitude_def maxAmplitude_def loud_track_sel
      wrap_i64_def binary_eval)

lemma seven_thr: "thresholdAmplitude 53 seven_samples = 0"
  by (simp add: thresholdAmplitude_def avgAmplitude_def maxAmplitude_def seven_samples_sel
      wrap_i64_def binary_eval)

lemma spike_track_sel:
  "has_valid_audio_data spike_track" "length (samples spike_track) = 54" "num_samples spike_track = 54"
  "i < 54 \<Longrightarrow> samples spike_track ! i = (if i = 27 then 1000 else 0)"
  by (simp_all add: spike_track_def num_samples_def nth_append nth_Cons')

lemma spike_track_pass: "amplitude_pass (samples spike_track) 0 0 = (1000, 1000)"
  by (simp add: spike_track_def amplitude_pass_append amplitude_pass_zeros wrap_i64_def)

lemma spike_track_thr: "\<bar>thresholdAmplitude 53 spike_track\<bar> < 1000"
  by (simp add: thresholdAmplitude_def avgAmplitude_def maxAmplitude_def spike_track_pass
      spike_track_sel binary_eval)

lemma spike_track_offs49: "sampleOffs 53 spike_track 98 49 = 26"
  by (simp add: sampleOffs_def spike_track_sel binary_eval)

lemma spike_track_offs50: "sampleOffs 53 spike_track 98 50 = 27"
  by (simp add: sampleOffs_def spike_track_sel binary_eval)

lemma loud_everywhere_sel:
  "has_valid_audio_data loud_everywhere" "length (samples loud_everywhere) = 150"
  "num_samples loud_everywhere = 150"
  "i < 150 \<Longrightarrow> samples loud_everywhere ! i = 1000"
  by (simp_all add: loud_everywhere_def num_samples_def)


lemma loud_everywhere_thr: "thresholdAmplitude 53 loud_everywhere = 0"
  by (simp add: thresholdAmplitude_def avgAmplitude_def maxAmplitude_def loud_everywhere_def
      num_samples_def amplitude_pass_constant binary_eval)



lemma loud_everywhere_offs: "i < 150 \<Longrightarrow> sampleOffs 53 loud_everywhere 150 i = i"
  by (rule sampleOffs_same) (simp_all add: loud_everywhere_sel)


lemma loud_everywhere_evaluates:
  "audio_evaluates 53 (Some loud_everywhere) (\<lambda>k. False) (fresh 150) 148 True"
proof -
  let ?thr = "thresholdAmplitude 53 loud_everywhere"
  have "\<exists>s. audio_steps 53 loud_everywhere ?thr 150 3 (\<lambda>k. False) 37 0 (replicate 150 Uninitialized)
          = Some (148, s)"
    by (simp add: steps_eval loud_everywhere_sel loud_everywhere_thr loud_everywhere_offs
        del: One_nat_def)
  then obtain s where
    "audio_steps 53 loud_everywhere ?thr 150 3 (\<lambda>k. False) 37 0 (replicate 150 Uninitialized)
       = Some (148, s)" ..
  from audio_steps_iter [OF this audio_iter_start]
  have iter: "\<exists>s. audio_iter 53 loud_everywhere ?thr 150 3 (\<lambda>k. False)
                 (replicate 150 Uninitialized) 148 s" ..
  have loud: "loudSample 53 loud_everywhere ?thr 150 148 = Inr True"
    by (simp add: loudSample_def sample_at_def loud_everywhere_sel loud_everywhere_offs
        loud_everywhere_thr)
  show ?thesis
    using iter loud
    by (simp add: audio_evaluates_def Let_def extract_audio_def has_valid_audio_def fresh_def
        loud_everywhere_sel TIME_GRANULARITY_DIVISOR_def)
qed

lemma loud_everywhere_first:
  "audio_evaluates 53 (Some loud_everywhere) (\<lambda>k. False) (fresh 150) 0 True"
proof -
  have "loudSample 53 loud_everywhere (thresholdAmplitude 53 loud_everywhere) 150 0 = Inr True"
    by (simp add: loudSample_def sample_at_def loud_everywhere_sel loud_everywhere_offs
        loud_everywhere_thr)
  then show ?thesis
    unfolding audio_evaluates_def Let_def
    by (intro conjI exI [of _ "audioFrameIsActive (extract_audio (Some loud_everywhere) (fresh 150))"]
          audio_iter_start)
       (simp_all add: extract_audio_def has_valid_audio_def fresh_def loud_everywhere_sel)
qed

lemma spike_track_evaluates:
  "audio_evaluates 53 (Some spike_track) (\<lambda>k. False) (fresh 98) 49 False"
proof -
  let ?thr = "thresholdAmplitude 53 spike_track"
  have "\<exists>s. audio_steps 53 spike_track ?thr 98 1 (\<lambda>k. False) 49 0 (replicate 98 Uninitialized)
          = Some (49, s)"
    by (simp add: steps_eval spike_track_sel spike_track_thr float_eval del: One_nat_def)
  then obtain s where
    "audio_steps 53 spike_track ?thr 98 1 (\<lambda>k. False) 49 0 (replicate 98 Uninitialized) = Some (49, s)" ..
  from audio_steps_iter [OF this audio_iter_start]
  have iter: "\<exists>s. audio_iter 53 spike_track ?thr 98 1 (\<lambda>k. False) (replicate 98 Uninitialized) 49 s" ..
  have loud: "loudSample 53 spike_track ?thr 98 49 = Inr False"
    by (simp add: loudSample_def sample_at_def spike_track_sel spike_track_offs49)
  show ?thesis
    using iter loud
    by (simp add: audio_evaluates_def Let_def extract_audio_def has_valid_audio_def fresh_def
        spike_track_sel TIME_GRANULARITY_DIVISOR_def)
qed

lemma spike_track_scan:
  "map_scan (\<lambda>this. (audioFrameIsActive this ! 49, audioFrameIsActive this ! 50))
     (mark_audio_frame_activity 53 (Some spike_track) (\<lambda>k. False) (fresh 98))
   = Finished (Inactive, Active)"
  by (simp add: audio_eval spike_track_sel spike_track_thr float_eval del: One_nat_def)

lemma film100_evaluates:
  "video_evaluates (film 100 (\<lambda>k. if k = 10 then 255 else 0)) (\<lambda>k. False) (fresh 100) 10 True"
proof -
  let ?film = "film 100 (\<lambda>k. if k = 10 then 255 else 0)"
  have "\<exists>st1 s cap thisFrame cap' thisFrame'.
          video_first ?film (videoFrameIsActive (fresh 100)) = Inr st1 \<and>
          video_steps (videoInfo (fresh 100)) 2 (\<lambda>k. False) 9 1 st1 = Some (10, s, cap, thisFrame) \<and>
          video_compare (videoInfo (fresh 100)) cap thisFrame = Inr (True, cap', thisFrame')"
    by (simp add: vsteps_eval del: One_nat_def)
  then obtain st1 s cap thisFrame cap' thisFrame'
    where first: "video_first ?film (videoFrameIsActive (fresh 100)) = Inr st1"
      and steps: "video_steps (videoInfo (fresh 100)) 2 (\<lambda>k. False) 9 1 st1 = Some (10, s, cap, thisFrame)"
      and cmp: "video_compare (videoInfo (fresh 100)) cap thisFrame = Inr (True, cap', thisFrame')"
    by (elim exE conjE) (rule that; assumption)
  from video_steps_iter [OF steps video_iter_start]
  have iter: "video_iter (videoInfo (fresh 100)) 2 (\<lambda>k. False) st1 10 (s, cap, thisFrame)" .
  have G: "num_frames (videoInfo (fresh 100)) div TIME_GRANULARITY_DIVISOR = 2"
    by (simp add: fresh_def TIME_GRANULARITY_DIVISOR_def)
  have "isOpened ?film" and "10 < num_frames (videoInfo (fresh 100))"
    by (simp_all add: film_def fresh_def)
  with first iter cmp show ?thesis
    unfolding video_evaluates_def G by blast
qed

section \<open>The frame-difference predicate on concrete frames\<close>

text \<open>
  Claim C1: \<open>frames_differ\<close> returns true if and only if some pixel differs in some
  channel by more than the threshold in absolute value, whichever image is the brighter.
  The code subtracts with saturation before it takes the absolute value, so a pixel of
  \<open>frame1\<close> that is darker than its partner in \<open>frame2\<close> gives the difference 0: two
  one-pixel frames that differ by 31 in one channel are reported as different at
  threshold 30 in one order of the arguments and as equal in the other.
\<close>

theorem frames_differ_misses_darker_frame1:
  "frames_differ (one_pixel 0) (one_pixel 31) 30 = Inr False \<and>
   frames_differ (one_pixel 31) (one_pixel 0) 30 = Inr True"
  by (simp add: frames_differ_def mat_sub_def vec_sub_def saturate_sub_def pixel_exceeds_def
      one_pixel_def)

section \<open>The segment search on concrete strips\<close>

text \<open>
  Claim C3: \<open>get_start_of_active_segment\<close> returns the first index of the run of
  \<open>Active\<close> entries that contains the given index; on the video strip
  \<open>[Inactive, Active, Active, Active, Inactive]\<close> and index 2 that is 1. The loop
  returns 0 as soon as the decremented index is 0, before it has looked at entry 0, so on
  this strip the code returns 0 although entry 0 is \<open>Inactive\<close>.
\<close>

theorem get_start_of_active_segment_example:
  "get_start_of_active_segment segment_example 2 0 = Inr 0"
  by (simp add: get_start_of_active_segment_def segment_example_def strip_at_def uint_dec_def)

section \<open>Degraded mode: no audio\<close>



section \<open>Frame 0 of the video strip\<close>

text \<open>
  Claim C10: for every input video, frame index 0 of the video strip is set to
  \<open>Inactive\<close> by the video scanner and is never \<open>Active\<close>: the entry is
  \<open>Inactive\<close> in the strip of every scan that returns, finished or stopped, and at the
  head of every iteration of the loop.
\<close>

theorem video_frame_zero_inactive:
  "(scan_result (mark_video_frame_activity video stop this) = Some this' \<longrightarrow>
      videoFrameIsActive this' ! 0 = Inactive) \<and>
   (video_first video (videoFrameIsActive this) = Inr st1 \<and>
    video_iter (videoInfo this) timeGranularity stop st1 i st \<longrightarrow>
      fst st ! 0 = Inactive)"
proof (intro conjI impI)
  assume "scan_result (mark_video_frame_activity video stop this) = Some this'"
  from mark_video_result [OF this] obtain st1 s
    where first: "video_first video (videoFrameIsActive this) = Inr st1"
      and loop: "scan_result (video_loop (videoInfo this)
                   (num_frames (videoInfo this) div TIME_GRANULARITY_DIVISOR) stop 1 st1) = Some s"
      and this': "this' = this\<lparr> videoFrameIsActive := s \<rparr>"
    by blast
  from video_first_Inr [OF first] have "0 < length (fst st1)" and "fst st1 ! 0 = Inactive"
    by simp_all
  with video_loop_below [OF loop] this' show "videoFrameIsActive this' ! 0 = Inactive"
    by simp
next
  assume a: "video_first video (videoFrameIsActive this) = Inr st1 \<and>
    video_iter (videoInfo this) timeGranularity stop st1 i st"
  from video_first_Inr [of video "videoFrameIsActive this" st1] a
  have "fst st1 ! 0 = Inactive" by simp
  with video_iter_zero [of "videoInfo this" timeGranularity stop st1 i st] a
  show "fst st ! 0 = Inactive" by simp
qed

theorem video_frame_zero_inactive_witness:
  "map_scan (\<lambda>this. videoFrameIsActive this ! 0)
     (mark_video_frame_activity (film 3 (\<lambda>k. if k = 1 then 255 else 0)) (\<lambda>k. False) (fresh 3))
   = Finished Inactive \<and>
   (\<exists>st1. video_first (film 3 (\<lambda>k. if k = 1 then 255 else 0)) (videoFrameIsActive (fresh 3)) = Inr st1 \<and>
      fst st1 ! 0 = Inactive)"
proof -
  let ?film = "film 3 (\<lambda>k. if k = 1 then 255 else 0)"
  let ?r = "mark_video_frame_activity ?film (\<lambda>k. False) (fresh 3)"
  have "\<exists>this'. ?r = Finished this'"
    by (simp add: video_eval del: One_nat_def)
  then obtain this' where r: "?r = Finished this'" ..
  then have res: "scan_result ?r = Some this'"
    by simp
  have "\<exists>st1. video_first ?film (videoFrameIsActive (fresh 3)) = Inr st1"
    by (simp add: video_eval del: One_nat_def)
  then obtain st1 where first: "video_first ?film (videoFrameIsActive (fresh 3)) = Inr st1" ..
  have iter: "video_iter (videoInfo (fresh 3)) 0 (\<lambda>k. False) st1 1 st1"
    by (rule video_iter_start)
  note z = video_frame_zero_inactive [of ?film "\<lambda>k. False" "fresh 3" this' st1 0 1 st1]
  from z res have "videoFrameIsActive this' ! 0 = Inactive"
    by simp
  moreover from z first iter have "fst st1 ! 0 = Inactive"
    by simp
  ultimately show ?thesis
    using r first by simp
qed

section \<open>Cancellation\<close>



section \<open>Coalescing\<close>

text \<open>
  Claim C2 says that after a frame \<open>i\<close> is marked \<open>Active\<close> by direct evaluation, the
  frames \<open>i + 1\<close> to \<open>i + G\<close> (clamped to \<open>N - 1\<close>) are \<open>Active\<close> at the end of an
  uninterrupted scan, where \<open>G = N div 50 > 0\<close>. In the code the run of \<open>G\<close> entries
  starts at \<open>i\<close> itself, and the video scanner writes the entry after the run, at
  \<open>i + G\<close>, \<open>Inactive\<close>: in a video of 50 frames (\<open>G = 1\<close>) in which frame 1 is
  brighter than frame 0, frame 1 is evaluated directly and marked \<open>Active\<close>, and frame 2
  is \<open>Inactive\<close> when the scan has finished.
\<close>

theorem coalescing_run_counterexample:
  "video_evaluates (film 50 (\<lambda>k. if k = 1 then 255 else 0)) (\<lambda>k. False) (fresh 50) 1 True \<and>
   num_frames (videoInfo (fresh 50)) div 50 = 1 \<and>
   map_scan (\<lambda>this. videoFrameIsActive this ! (1 + 1))
     (mark_video_frame_activity (film 50 (\<lambda>k. if k = 1 then 255 else 0)) (\<lambda>k. False) (fresh 50))
   = Finished Inactive"
proof -
  have "map_scan (\<lambda>this. videoFrameIsActive this ! (1 + 1))
     (mark_video_frame_activity (film 50 (\<lambda>k. if k = 1 then 255 else 0)) (\<lambda>k. False) (fresh 50))
   = Finished Inactive"
    by (simp add: video_eval del: One_nat_def)
  moreover have "num_frames (videoInfo (fresh 50)) div 50 = 1"
    by (simp add: fresh_def)
  ultimately show ?thesis
    using video_evaluates_first [of "\<lambda>k. False"] by simp
qed

text \<open>
  Claim C2, as amended: whenever a frame \<open>i\<close> is marked \<open>Active\<close> by direct evaluation,
  each of the frames \<open>i\<close> to \<open>i + G - 1\<close>, clamped to \<open>N - 1\<close>, is \<open>Active\<close> in
  the audio strip when the audio scan returns, finished or stopped. In the video strip,
  where \<open>i + G < N\<close>, each of the frames \<open>i\<close> to \<open>i + G - 1\<close> is \<open>Active\<close> and
  frame \<open>i + G\<close> is \<open>Inactive\<close> when the video scan returns.
\<close>

theorem coalescing_run:
  "(audio_evaluates p extracted stop this i True \<and>
    scan_result (mark_audio_frame_activity p extracted stop this) = Some this' \<and>
    i \<le> k \<and> k < i + num_frames (videoInfo this) div TIME_GRANULARITY_DIVISOR \<and>
    k < num_frames (videoInfo this) \<longrightarrow>
      audioFrameIsActive this' ! k = Active) \<and>
   (video_evaluates video stop this j True \<and>
    scan_result (mark_video_frame_activity video stop this) = Some this'' \<and>
    j + num_frames (videoInfo this) div TIME_GRANULARITY_DIVISOR < num_frames (videoInfo this) \<longrightarrow>
      (\<forall>k. j \<le> k \<and> k < j + num_frames (videoInfo this) div TIME_GRANULARITY_DIVISOR \<longrightarrow>
         videoFrameIsActive this'' ! k = Active) \<and>
      videoFrameIsActive this'' ! (j + num_frames (videoInfo this) div TIME_GRANULARITY_DIVISOR)
        = Inactive)"
proof (intro conjI impI allI)
  let ?obj = "extract_audio extracted this"
  let ?a = "the (audio ?obj)"
  let ?N = "num_frames (videoInfo this)"
  let ?G = "?N div TIME_GRANULARITY_DIVISOR"
  assume a: "audio_evaluates p extracted stop this i True \<and>
    scan_result (mark_audio_frame_activity p extracted stop this) = Some this' \<and>
    i \<le> k \<and> k < i + ?G \<and> k < ?N"
  then have valid: "has_valid_audio ?obj" and iN: "i < ?N"
    and loud: "loudSample p ?a (thresholdAmplitude p ?a) ?N i = Inr True"
    by (simp_all add: audio_evaluates_def Let_def extract_audio_same)
  from a obtain s where iter: "audio_iter p ?a (thresholdAmplitude p ?a) ?N ?G stop (audioFrameIsActive this) i s"
    by (auto simp: audio_evaluates_def Let_def extract_audio_same)
  from a valid iN obtain final
    where fin: "scan_result (audio_loop p ?a (thresholdAmplitude p ?a) ?N ?G stop 0 (audioFrameIsActive this)) = Some final"
      and this': "this' = ?obj\<lparr> audioFrameIsActive := final \<rparr>"
    by (auto simp: mark_audio_valid scan_result_map_scan)
  from fin audio_iter_loop [OF iter]
  have "scan_result (audio_loop p ?a (thresholdAmplitude p ?a) ?N ?G stop i s) = Some final"
    by simp
  from audio_loop_run [OF this iN loud] a this' show "audioFrameIsActive this' ! k = Active"
    by simp
next
  let ?N = "num_frames (videoInfo this)"
  let ?G = "?N div TIME_GRANULARITY_DIVISOR"
  assume v: "video_evaluates video stop this j True \<and>
    scan_result (mark_video_frame_activity video stop this) = Some this'' \<and> j + ?G < ?N"
  then obtain st1 s cap thisFrame cap' thisFrame' where jN: "j < ?N"
    and first: "video_first video (videoFrameIsActive this) = Inr st1"
    and iter: "video_iter (videoInfo this) ?G stop st1 j (s, cap, thisFrame)"
    and differ: "video_compare (videoInfo this) cap thisFrame = Inr (True, cap', thisFrame')"
    by (auto simp: video_evaluates_def)
  from v have "scan_result (mark_video_frame_activity video stop this) = Some this''"
    by simp
  from mark_video_result [OF this] first obtain final
    where fin: "scan_result (video_loop (videoInfo this) ?G stop 1 st1) = Some final"
      and this'': "this'' = this\<lparr> videoFrameIsActive := final \<rparr>"
    by auto
  from fin video_iter_loop [OF iter]
  have loop: "scan_result (video_loop (videoInfo this) ?G stop j (s, cap, thisFrame)) = Some final"
    by simp
  from v have room: "j + ?G < ?N"
    by simp
  from video_loop_baseline [OF loop jN differ room] this''
  show "videoFrameIsActive this'' ! (j + ?G) = Inactive"
    by simp
  fix k
  assume k: "j \<le> k \<and> k < j + ?G"
  with room have "j \<le> k" and "k < j + ?G" and "k < ?N"
    by simp_all
  from video_loop_run [OF loop jN differ this] this''
  show "videoFrameIsActive this'' ! k = Active"
    by simp
qed

theorem coalescing_run_witness:
  "audio_evaluates 53 (Some loud_everywhere) (\<lambda>k. False) (fresh 150) 148 True \<and>
   audio_evaluates 53 (Some loud_everywhere) (\<lambda>k. False) (fresh 150) 0 True \<and>
   (\<exists>this'. mark_audio_frame_activity 53 (Some loud_everywhere) (\<lambda>k. False) (fresh 150)
        = Finished this' \<and>
      audioFrameIsActive this' ! 149 = Active \<and> audioFrameIsActive this' ! 2 = Active) \<and>
   video_evaluates (film 100 (\<lambda>k. if k = 10 then 255 else 0)) (\<lambda>k. False) (fresh 100) 10 True \<and>
   (\<exists>this''. mark_video_frame_activity (film 100 (\<lambda>k. if k = 10 then 255 else 0)) (\<lambda>k. False)
        (fresh 100) = Finished this'' \<and>
      videoFrameIsActive this'' ! 11 = Active \<and> videoFrameIsActive this'' ! 12 = Inactive)"
proof -
  let ?film = "film 100 (\<lambda>k. if k = 10 then 255 else 0)"
  have "\<exists>this'. mark_audio_frame_activity 53 (Some loud_everywhere) (\<lambda>k. False) (fresh 150)
          = Finished this'"
    by (simp add: audio_eval loud_everywhere_sel loud_everywhere_thr loud_everywhere_offs
        del: One_nat_def)
  then obtain this' where
    a: "mark_audio_frame_activity 53 (Some loud_everywhere) (\<lambda>k. False) (fresh 150) = Finished this'" ..
  have "\<exists>this''. mark_video_frame_activity ?film (\<lambda>k. False) (fresh 100) = Finished this''"
    by (simp add: video_eval del: One_nat_def)
  then obtain this'' where
    v: "mark_video_frame_activity ?film (\<lambda>k. False) (fresh 100) = Finished this''" ..
  have n: "num_frames (videoInfo (fresh 150)) div TIME_GRANULARITY_DIVISOR = 3"
    "num_frames (videoInfo (fresh 150)) = 150"
    "num_frames (videoInfo (fresh 100)) div TIME_GRANULARITY_DIVISOR = 2"
    "num_frames (videoInfo (fresh 100)) = 100"
    by (simp_all add: fresh_def TIME_GRANULARITY_DIVISOR_def)
  from coalescing_run [of 53 "Some loud_everywhere" "\<lambda>k. False" "fresh 150" 148 this' 149]
    loud_everywhere_evaluates a n
  have "audioFrameIsActive this' ! 149 = Active"
    by simp
  moreover
  from coalescing_run [of 53 "Some loud_everywhere" "\<lambda>k. False" "fresh 150" 0 this' 2]
    loud_everywhere_first a n
  have "audioFrameIsActive this' ! 2 = Active"
    by simp
  moreover
  from coalescing_run [of 53 "Some loud_everywhere" "\<lambda>k. False" "fresh 100" 148 this' 149 ?film 10 this'']
    film100_evaluates v n
  have "videoFrameIsActive this'' ! 11 = Active \<and> videoFrameIsActive this'' ! 12 = Inactive"
    by simp
  ultimately show ?thesis
    using a v loud_everywhere_evaluates loud_everywhere_first film100_evaluates by blast
qed

section \<open>Entries the audio scan leaves unwritten\<close>

text \<open>
  Claim C4: after an uninterrupted scan no strip entry remains \<open>Uninitialized\<close>. The
  audio loop advances \<open>i\<close> past the run and then the loop header increments it once
  more, so the entry behind each run is never written: with 50 frames (\<open>G = 1\<close>) and a
  track that is loud everywhere, the scan finishes and entry 1 is still
  \<open>Uninitialized\<close>, whether \<open>real\<close> is \<open>double\<close> or \<open>float\<close>. The video loop
  writes that entry (the \<open>Inactive\<close> baseline).
\<close>

theorem audio_scan_skips_frames:
  "map_scan (\<lambda>this. audioFrameIsActive this ! 1)
     (mark_audio_frame_activity 53 (Some loud_track) (\<lambda>k. False) (fresh 50))
     = Finished Uninitialized \<and>
   map_scan (\<lambda>this. audioFrameIsActive this ! 1)
     (mark_audio_frame_activity 24 (Some loud_track) (\<lambda>k. False) (fresh 50))
     = Finished Uninitialized"
  by (simp add: audio_eval loud_track_sel loud_track_thr float_eval del: One_nat_def)

section \<open>Strip accesses out of range\<close>

text \<open>
  Claim C5: every strip access of the two scanners and of
  \<open>get_start_of_active_segment\<close> stays in bounds. The video scanner clamps the run to
  the end of the strip and then writes the baseline entry behind the run without a check:
  in a video of 50 frames whose last frame is brighter than the one before, that write
  goes to index 50 of a strip of size 50. And \<open>get_start_of_active_segment\<close>, called on
  index 0 of a strip whose entry 0 is \<open>Active\<close>, decrements the unsigned index 0 and
  reads at \<open>2 ^ 32 - 1\<close>.
\<close>

theorem strip_accesses_out_of_range:
  "mark_video_frame_activity (film 50 (\<lambda>k. if k = 49 then 255 else 0)) (\<lambda>k. False) (fresh 50)
     = Aborted StripIndexOutOfRange \<and>
   get_start_of_active_segment segment_example 0 1 = Inl StripIndexOutOfRange"
proof -
  have "mark_video_frame_activity (film 50 (\<lambda>k. if k = 49 then 255 else 0)) (\<lambda>k. False) (fresh 50)
     = Aborted StripIndexOutOfRange"
    by (simp add: video_eval del: One_nat_def)
  moreover have "get_start_of_active_segment segment_example 0 1 = Inl StripIndexOutOfRange"
    by (simp add: get_start_of_active_segment_def segment_example_def strip_at_def uint_dec_def)
  ultimately show ?thesis ..
qed

section \<open>The representative sample of a frame\<close>

text \<open>
  Claim C6 says that the sample index compared for frame \<open>i\<close> is
  \<open>i * numSamples / numFrames\<close> rounded to the nearest integer. The code converts the
  product to \<open>uint\<close>, which drops the fraction: with 7 samples and 4 frames, frame 1 is
  evaluated by the scanner and its sample index is 1, while \<open>7 / 4\<close> rounds to 2.
\<close>

theorem sample_index_counterexample:
  "audio_evaluates 53 (Some seven_samples) (\<lambda>k. False) (fresh 4) 1 False \<and>
   sampleOffs 53 seven_samples 4 1 = 1 \<and>
   round (real 1 * real (num_samples seven_samples) / real 4) = 2"
proof -
  let ?G = "4 div TIME_GRANULARITY_DIVISOR"
  let ?thr = "thresholdAmplitude 53 seven_samples"
  let ?s0 = "replicate 4 Uninitialized"
  have step: "audio_frame 53 seven_samples ?thr 4 ?G 0 ?s0 = Inr (0, ?s0[0 := Inactive])"
    by (simp add: seven_thr audio_frame_def loudSample_def sample_at_def strip_set_def
        seven_samples_sel float_eval)
  have "audio_iter 53 seven_samples ?thr 4 ?G (\<lambda>k. False) ?s0 (0 + 1) (?s0[0 := Inactive])"
    by (rule audio_iter_next [OF audio_iter_start _ step]) simp_all
  then have iter: "\<exists>s. audio_iter 53 seven_samples ?thr 4 ?G (\<lambda>k. False) ?s0 1 s"
    by auto
  have offs: "sampleOffs 53 seven_samples 4 1 = 1"
    by (simp add: seven_samples_sel float_eval)
  have loud: "loudSample 53 seven_samples ?thr 4 1 = Inr False"
    using offs by (simp add: seven_thr loudSample_def sample_at_def seven_samples_sel)
  have "audio_evaluates 53 (Some seven_samples) (\<lambda>k. False) (fresh 4) 1 False"
    using iter loud
    by (simp add: audio_evaluates_def Let_def extract_audio_def has_valid_audio_def fresh_def
        seven_samples_sel)
  moreover have "round (real 1 * real (num_samples seven_samples) / real 4) = 2"
    by (simp add: seven_samples_sel round_def)
  ultimately show ?thesis
    using offs by simp
qed

text \<open>
  Claim C6, as amended: for every frame index \<open>i\<close> evaluated by the audio scanner, the
  sample compared against the threshold is the one whose index is the product
  \<open>(numSamples / numFrames) * i\<close>, computed in the type \<open>real\<close> (the counts and the
  index converted, the quotient and the product rounded) and then cut to its integer part.
  Where the frame count divides the sample count and both fit the significand of
  \<open>real\<close>, nothing is rounded and the index is \<open>i * numSamples / numFrames\<close> exactly.
  Elsewhere the rounded product can stay below an integer that the exact product reaches:
  with 54 samples and 98 frames in \<open>double\<close>, frame 49 is compared on sample 26, although
  \<open>49 * 54 / 98 = 27\<close>.
\<close>

theorem sample_index_truncates:
  "audio (extract_audio extracted this) = Some a \<and>
   audio_evaluates p extracted stop this i loud \<longrightarrow>
     (let n = length (samples a);
          N = num_frames (videoInfo this);
          idx = nat \<lfloor>binary p (binary p (binary p (real n) / binary p (real N)) *
                           binary p (real i))\<rfloor>
      in idx < n \<and>
         loud = (\<bar>real_of_int (samples a ! idx)\<bar> > \<bar>thresholdAmplitude p a\<bar>) \<and>
         (N dvd n \<and> n < 2 ^ p \<and> N < 2 ^ p \<longrightarrow> idx = i * n div N))"
proof
  let ?N = "num_frames (videoInfo this)"
  let ?n = "length (samples a)"
  let ?idx = "nat \<lfloor>binary p (binary p (binary p (real ?n) / binary p (real ?N)) *
                         binary p (real i))\<rfloor>"
  assume h: "audio (extract_audio extracted this) = Some a \<and>
    audio_evaluates p extracted stop this i loud"
  then have a: "the (audio (extract_audio extracted this)) = a"
    by simp
  from h have iN: "i < ?N"
    and loud: "loudSample p a (thresholdAmplitude p a) ?N i = Inr loud"
    unfolding audio_evaluates_def Let_def a by (simp_all add: extract_audio_same)
  have idx: "sampleOffs p a ?N i = ?idx"
    by (simp add: sampleOffs_def num_samples_def)
  from loudSample_Inr [OF loud]
  have 1: "?idx < ?n"
    and 2: "loud = (\<bar>real_of_int (samples a ! ?idx)\<bar> > \<bar>thresholdAmplitude p a\<bar>)"
    unfolding idx by simp_all
  have 3: "?idx = i * ?n div ?N" if d: "?N dvd ?n \<and> ?n < 2 ^ p \<and> ?N < 2 ^ p"
  proof -
    from d obtain q where q: "?n = q * ?N"
      by (auto simp: dvd_def mult.commute)
    have ns: "num_samples a = q * ?N"
      using q by (simp add: num_samples_def)
    have N: "0 < ?N" using iN by simp
    have qN: "q * ?N < 2 ^ p" using d q by simp
    have i2: "i < 2 ^ p" using iN d by simp
    have "i \<le> ?N" using iN by simp
    then have "q * i \<le> q * ?N" by (rule mult_le_mono2)
    with qN have qi: "q * i < 2 ^ p" by linarith
    from sampleOffs_exact [OF ns N _ qN i2 qi] d have "sampleOffs p a ?N i = q * i"
      by simp
    moreover have "i * ?n div ?N = q * i"
      using q N by (simp add: mult.commute)
    ultimately show ?thesis
      unfolding idx by simp
  qed
  from 1 2 3 show "let n = length (samples a);
          N = num_frames (videoInfo this);
          idx = nat \<lfloor>binary p (binary p (binary p (real n) / binary p (real N)) *
                           binary p (real i))\<rfloor>
      in idx < n \<and>
         loud = (\<bar>real_of_int (samples a ! idx)\<bar> > \<bar>thresholdAmplitude p a\<bar>) \<and>
         (N dvd n \<and> n < 2 ^ p \<and> N < 2 ^ p \<longrightarrow> idx = i * n div N)"
    unfolding Let_def by blast
qed

theorem sample_index_truncates_witness:
  "audio_evaluates 53 (Some spike_track) (\<lambda>k. False) (fresh 98) 49 False \<and>
   nat \<lfloor>binary 53 (binary 53 (binary 53 54 / binary 53 98) * binary 53 49)\<rfloor> = 26 \<and>
   samples spike_track ! 26 = 0 \<and>
   \<not> \<bar>thresholdAmplitude 53 spike_track\<bar> < \<bar>real_of_int (samples spike_track ! 26)\<bar> \<and>
   (49 * 54) div 98 = (27 :: nat) \<and> samples spike_track ! 27 = 1000 \<and>
   audio_evaluates 53 (Some loud_everywhere) (\<lambda>k. False) (fresh 150) 148 True \<and>
   nat \<lfloor>binary 53 (binary 53 (binary 53 150 / binary 53 150) * binary 53 148)\<rfloor> = 148"
proof -
  note t = sample_index_truncates [of "Some spike_track" "fresh 98" spike_track 53 "\<lambda>k. False" 49 False,
      unfolded Let_def]
  have a: "audio (extract_audio (Some spike_track) (fresh 98)) = Some spike_track"
    by (simp add: extract_audio_def)
  from t a spike_track_evaluates
  have "nat \<lfloor>binary 53 (binary 53 (binary 53 (real (length (samples spike_track))) /
                                binary 53 (real (num_frames (videoInfo (fresh 98))))) *
                      binary 53 (real 49))\<rfloor> < length (samples spike_track) \<and>
        False = (\<bar>real_of_int (samples spike_track !
                   nat \<lfloor>binary 53 (binary 53 (binary 53 (real (length (samples spike_track))) /
                                binary 53 (real (num_frames (videoInfo (fresh 98))))) *
                      binary 53 (real 49))\<rfloor>)\<bar> > \<bar>thresholdAmplitude 53 spike_track\<bar>)"
    by blast
  moreover have idx: "nat \<lfloor>binary 53 (binary 53 (binary 53 54 / binary 53 98) * binary 53 49)\<rfloor> = 26"
    by (simp add: binary_eval)
  ultimately have quiet:
    "\<not> \<bar>thresholdAmplitude 53 spike_track\<bar> < \<bar>real_of_int (samples spike_track ! 26)\<bar>"
    by (simp add: spike_track_sel(2) fresh_def)
  note u = sample_index_truncates [of "Some loud_everywhere" "fresh 150" loud_everywhere 53
      "\<lambda>k. False" 148 True, unfolded Let_def]
  have b: "audio (extract_audio (Some loud_everywhere) (fresh 150)) = Some loud_everywhere"
    by (simp add: extract_audio_def)
  have d: "num_frames (videoInfo (fresh 150)) dvd length (samples loud_everywhere) \<and>
    length (samples loud_everywhere) < 2 ^ 53 \<and> num_frames (videoInfo (fresh 150)) < 2 ^ 53"
    by (simp add: loud_everywhere_sel fresh_def)
  from u b loud_everywhere_evaluates d
  have "nat \<lfloor>binary 53 (binary 53 (binary 53 (real (length (samples loud_everywhere))) /
                                binary 53 (real (num_frames (videoInfo (fresh 150))))) *
                      binary 53 (real 148))\<rfloor>
        = 148 * length (samples loud_everywhere) div num_frames (videoInfo (fresh 150))"
    by blast
  then have "nat \<lfloor>binary 53 (binary 53 (binary 53 150 / binary 53 150) * binary 53 148)\<rfloor> = 148"
    by (simp add: loud_everywhere_sel fresh_def)
  moreover have "samples spike_track ! 26 = 0" "samples spike_track ! 27 = 1000"
    "(49 * 54) div 98 = (27 :: nat)"
    by (simp_all add: spike_track_sel)
  ultimately show ?thesis
    using idx quiet spike_track_evaluates loud_everywhere_evaluates by blast
qed

section \<open>The audio threshold\<close>

text \<open>
  Claim C7: for every non-empty sample sequence, \<open>avgAmplitude\<close> is the arithmetic mean of
  the signed samples, \<open>maxAmplitude\<close> is the largest absolute sample value, the threshold
  is \<open>(maxAmplitude - avgAmplitude) * 0.001\<close>, computed once, and a directly evaluated
  frame is marked \<open>Active\<close> exactly when the absolute value of its representative sample
  is strictly greater than the absolute value of the threshold. The quantities are those of
  the program's arithmetic: the sum of the samples is exact, and the quotient, the
  difference and the product with the \<open>double\<close> constant are each rounded to their type,
  so that the mean is the exact mean rounded once where the sum and the count fit the
  significand of \<open>real\<close>; the representative sample is the one at the truncated product
  \<open>(numSamples / numFrames) * i\<close>. The hypotheses on the samples are those of their
  machine types: each sample fits an \<open>int\<close>, and their number a \<open>uint\<close>, so that the
  \<open>i64\<close> sum does not wrap.
\<close>

theorem audio_threshold_rule:
  assumes "samples a \<noteq> []" and "\<forall>x \<in> set (samples a). \<bar>x\<bar> < 2 ^ 31"
    and "length (samples a) < 2 ^ 32"
  shows "let n = length (samples a);
             mean = binary p (binary p (real_of_int (sum_list (samples a))) / binary p (real n));
             peak = Max ((\<lambda>x. nat \<bar>x\<bar>) ` set (samples a));
             threshold = binary p (binary (max p 53)
                           (binary p (binary p (real peak) - mean) * binary 53 (1 / 1000)))
         in avgAmplitude p a = mean \<and> maxAmplitude a = peak \<and>
            thresholdAmplitude p a = threshold \<and>
            (\<bar>sum_list (samples a)\<bar> < 2 ^ p \<and> n < 2 ^ p \<longrightarrow>
               mean = binary p (real_of_int (sum_list (samples a)) / real n)) \<and>
            (audio (extract_audio extracted this) = Some a \<and>
             audio_evaluates p extracted stop this i loud \<and>
             scan_result (mark_audio_frame_activity p extracted stop this) = Some this' \<longrightarrow>
               (let idx = nat \<lfloor>binary p (binary p (binary p (real n) /
                                        binary p (real (num_frames (videoInfo this)))) *
                                      binary p (real i))\<rfloor>
                in idx < n \<and>
                   loud = (\<bar>real_of_int (samples a ! idx)\<bar> > \<bar>threshold\<bar>) \<and>
                   audioFrameIsActive this' ! i = (if loud then Active else Inactive)))"
proof -
  let ?n = "length (samples a)"
  let ?mean = "binary p (binary p (real_of_int (sum_list (samples a))) / binary p (real ?n))"
  let ?peak = "Max ((\<lambda>x. nat \<bar>x\<bar>) ` set (samples a))"
  let ?thr = "binary p (binary (max p 53)
                (binary p (binary p (real ?peak) - ?mean) * binary 53 (1 / 1000)))"
  let ?N = "num_frames (videoInfo this)"
  let ?G = "?N div TIME_GRANULARITY_DIVISOR"
  have "2 ^ 31 * int (length (samples a)) < 2 ^ 31 * 2 ^ 32"
    using assms(3) by (simp only: mult_less_cancel_left_pos zero_less_numeral zero_less_power)
      (metis of_nat_less_iff of_nat_numeral of_nat_power)
  then have "\<bar>0 :: int\<bar> + 2 ^ 31 * int (length (samples a)) < 2 ^ 63"
    by simp
  from amplitude_pass_sum [OF assms(2) this, of 0]
  have avg: "avgAmplitude p a = ?mean"
    by (simp add: avgAmplitude_def num_samples_def)
  have "Max (insert 0 ((\<lambda>x. nat \<bar>x\<bar>) ` set (samples a))) = ?peak"
    using assms(1) by (simp add: max_def)
  then have peak: "maxAmplitude a = ?peak"
    by (simp add: maxAmplitude_def amplitude_pass_max)
  have thr: "thresholdAmplitude p a = ?thr"
    by (simp only: thresholdAmplitude_def avg peak)
  have exact: "?mean = binary p (real_of_int (sum_list (samples a)) / real ?n)"
    if "\<bar>sum_list (samples a)\<bar> < 2 ^ p \<and> ?n < 2 ^ p"
    using that by (simp only: binary_of_int binary_of_nat)
  have scan: "(let idx = nat \<lfloor>binary p (binary p (binary p (real ?n) / binary p (real ?N)) *
                                      binary p (real i))\<rfloor>
                in idx < ?n \<and>
                   loud = (\<bar>real_of_int (samples a ! idx)\<bar> > \<bar>?thr\<bar>) \<and>
                   audioFrameIsActive this' ! i = (if loud then Active else Inactive))"
    if h: "audio (extract_audio extracted this) = Some a \<and>
          audio_evaluates p extracted stop this i loud \<and>
          scan_result (mark_audio_frame_activity p extracted stop this) = Some this'"
  proof -
    from h have a: "the (audio (extract_audio extracted this)) = a"
      by simp
    from h have valid: "has_valid_audio (extract_audio extracted this)" and iN: "i < ?N"
      and loud: "loudSample p a (thresholdAmplitude p a) ?N i = Inr loud"
      unfolding audio_evaluates_def Let_def a by (simp_all add: extract_audio_same)
    from h obtain s where iter: "audio_iter p a (thresholdAmplitude p a) ?N ?G stop (audioFrameIsActive this) i s"
      unfolding audio_evaluates_def Let_def a by (auto simp: extract_audio_same)
    from h have "scan_result (mark_audio_frame_activity p extracted stop this) = Some this'"
      by simp
    then obtain final
      where fin: "scan_result (audio_loop p a (thresholdAmplitude p a) ?N ?G stop 0 (audioFrameIsActive this)) = Some final"
        and this': "this' = (extract_audio extracted this)\<lparr> audioFrameIsActive := final \<rparr>"
      unfolding mark_audio_valid [OF valid order_le_less_trans [OF le0 iN]] a
      by (auto simp: scan_result_map_scan)
    from fin audio_iter_loop [OF iter]
    have "scan_result (audio_loop p a (thresholdAmplitude p a) ?N ?G stop i s) = Some final"
      by simp
    from audio_loop_entry [OF this iN loud] this'
    have entry: "audioFrameIsActive this' ! i = (if loud then Active else Inactive)"
      by simp
    from loudSample_Inr [OF loud]
    have "sampleOffs p a ?N i < ?n"
      and "loud = (\<bar>real_of_int (samples a ! sampleOffs p a ?N i)\<bar> > \<bar>thresholdAmplitude p a\<bar>)"
      by simp_all
    with entry show ?thesis
      unfolding thr by (simp add: sampleOffs_def num_samples_def Let_def)
  qed
  from avg peak thr exact scan show ?thesis
    unfolding Let_def by blast
qed

theorem audio_threshold_rule_witness:
  "set (samples spike_track) = {0, 1000} \<and> length (samples spike_track) = 54 \<and>
   audio_evaluates 53 (Some spike_track) (\<lambda>k. False) (fresh 98) 49 False \<and>
   avgAmplitude 53 spike_track = binary 53 (1000 / 54) \<and> maxAmplitude spike_track = 1000 \<and>
   thresholdAmplitude 53 spike_track =
     binary 53 (binary 53 (binary 53 (1000 - binary 53 (1000 / 54)) * binary 53 (1 / 1000))) \<and>
   \<bar>thresholdAmplitude 53 spike_track\<bar> < 1000 \<and> 0 < \<bar>thresholdAmplitude 53 spike_track\<bar> \<and>
   (\<exists>this'. mark_audio_frame_activity 53 (Some spike_track) (\<lambda>k. False) (fresh 98) = Finished this' \<and>
      audioFrameIsActive this' ! 49 = Inactive \<and> audioFrameIsActive this' ! 50 = Active)"
proof -
  have h: "samples spike_track \<noteq> []" "\<forall>x \<in> set (samples spike_track). \<bar>x\<bar> < 2 ^ 31"
    "length (samples spike_track) < 2 ^ 32"
    by (auto simp add: spike_track_def)
  have "\<exists>this'. mark_audio_frame_activity 53 (Some spike_track) (\<lambda>k. False) (fresh 98) = Finished this'"
    using spike_track_scan by (cases "mark_audio_frame_activity 53 (Some spike_track) (\<lambda>k. False) (fresh 98)")
      simp_all
  then obtain this' where
    r: "mark_audio_frame_activity 53 (Some spike_track) (\<lambda>k. False) (fresh 98) = Finished this'" ..
  with spike_track_scan have e: "audioFrameIsActive this' ! 50 = Active"
    by simp
  have a: "audio (extract_audio (Some spike_track) (fresh 98)) = Some spike_track"
    by (simp add: extract_audio_def)
  note t = audio_threshold_rule [OF h, of 53 "Some spike_track" "fresh 98" "\<lambda>k. False" 49 False this',
      unfolded Let_def]
  have sum: "sum_list (samples spike_track) = 1000"
    "Max ((\<lambda>x. nat \<bar>x\<bar>) ` set (samples spike_track)) = 1000"
    by (simp_all add: spike_track_def sum_list_replicate)
  from t have "avgAmplitude 53 spike_track = binary 53 (1000 / 54)"
    by (simp add: sum spike_track_sel binary_numeral)
  moreover from t have "maxAmplitude spike_track = 1000"
    by (simp add: sum)
  moreover from t have "thresholdAmplitude 53 spike_track =
     binary 53 (binary 53 (binary 53 (1000 - binary 53 (1000 / 54)) * binary 53 (1 / 1000)))"
    by (simp add: sum spike_track_sel binary_numeral)
  moreover have "0 < \<bar>thresholdAmplitude 53 spike_track\<bar>"
    by (simp add: thresholdAmplitude_def avgAmplitude_def maxAmplitude_def spike_track_pass
      spike_track_sel binary_eval)
  moreover from t a spike_track_evaluates r have "audioFrameIsActive this' ! 49 = Inactive"
    by simp
  moreover have "set (samples spike_track) = {0, 1000}"
    by (auto simp: spike_track_def)
  ultimately show ?thesis
    using spike_track_sel(2) spike_track_evaluates spike_track_thr r e by blast
qed

end
